theory Spec2Isabelle
  imports Complex_Main "HOL-Library.Word"
begin

text \<open>
  A reader for markdown files that reads the document aloud and highlights the word
  being spoken. Three parts of the repository are modelled here: the tokenizer of
  \<open>ReaderView\<close>, which splits the text into words and separators; the narration session
  of \<open>App\<close>, that is \<open>startReading\<close> and the handlers of the controls, over a model of
  the browser's speech engine; and the highlight effect of \<open>MarkdownViewer\<close>, over a model
  of the DOM subtree that it changes.
\<close>

section \<open>JavaScript strings\<close>

text \<open>
  A JavaScript string is a sequence of 16-bit code units; \<open>length\<close>, \<open>substring\<close> and the
  indices of a regular-expression match all count code units.
\<close>

type_synonym code_unit = "16 word"
type_synonym jsstring = "code_unit list"

text \<open>
  The regular-expression class \<open>\s\<close> and \<open>String.prototype.trim\<close> use the same set:
  ECMAScript's WhiteSpace and LineTerminator code points.
\<close>

definition is_space :: "code_unit \<Rightarrow> bool" where
  "is_space c \<longleftrightarrow>
     c \<in> set [0x0009, 0x000A, 0x000B, 0x000C, 0x000D, 0x0020, 0x00A0, 0x1680,
               0x2028, 0x2029, 0x202F, 0x205F, 0x3000, 0xFEFF]
     \<or> (0x2000 \<le> c \<and> c \<le> 0x200A)"

text \<open>The class \<open>\w\<close>: ASCII letters, digits and the underscore.\<close>

definition is_word_char :: "code_unit \<Rightarrow> bool" where
  "is_word_char c \<longleftrightarrow>
     (0x41 \<le> c \<and> c \<le> 0x5A) \<or> (0x61 \<le> c \<and> c \<le> 0x7A) \<or> (0x30 \<le> c \<and> c \<le> 0x39) \<or> c = 0x5F"

text \<open>\<open>s.trim()\<close>.\<close>

definition js_trim :: "jsstring \<Rightarrow> jsstring" where
  "js_trim s = rev (dropWhile is_space (rev (dropWhile is_space s)))"

text \<open>
  \<open>s.substring(a)\<close> for a number \<open>a\<close>: a negative start counts as 0, a start past the end
  as the length.
\<close>

definition substring_from :: "jsstring \<Rightarrow> int \<Rightarrow> jsstring" where
  "substring_from s a = drop (nat a) s"

text \<open>
  \<open>s.substring(a, b)\<close> on indices that are not negative: both are clamped to the length,
  and swapped when \<open>a > b\<close>.
\<close>

definition substring :: "jsstring \<Rightarrow> nat \<Rightarrow> nat \<Rightarrow> jsstring" where
  "substring s a b =
     (let a' = min a (length s); b' = min b (length s);
          lo = min a' b'; hi = max a' b'
      in take (hi - lo) (drop lo s))"

text \<open>An ASCII literal as a JavaScript string.\<close>

definition js :: "string \<Rightarrow> jsstring" where
  "js s = map (\<lambda>c. of_nat (of_char c)) s"


section \<open>The tokenizer of ReaderView\<close>

text \<open>
  One element of \<open>elements\<close>: \<open>{text, index, isWord}\<close>. The fields \<open>text\<close> and
  \<open>index\<close> are \<open>tok_text\<close> and \<open>tok_index\<close> here.
\<close>

record token =
  tok_text :: jsstring
  tok_index :: nat
  isWord :: bool

text \<open>
  \<open>wordRegex.exec(content)\<close> for \<open>wordRegex = /\S+/g\<close>, the regular expression's
  \<open>lastIndex\<close> being the second argument: the search starts there, the match is the first
  maximal run of non-whitespace, and the result is \<open>match.index\<close> and \<open>match[0]\<close>, or
  \<open>None\<close> for \<open>null\<close>.
\<close>

definition wordRegex_exec :: "jsstring \<Rightarrow> nat \<Rightarrow> (nat \<times> jsstring) option" where
  "wordRegex_exec content rx =
     (let start = rx + length (takeWhile is_space (drop rx content));
          m = takeWhile (\<lambda>c. \<not> is_space c) (drop start content)
      in if m = [] then None else Some (start, m))"

text \<open>
  The \<open>while\<close> loop of \<open>tokenizedContent\<close>. \<open>rx\<close> is \<open>wordRegex.lastIndex\<close>, which
  \<open>exec\<close> sets to the end of its match; \<open>lastIndex\<close> and \<open>elements\<close> are the variables of
  the source. The result is their value when \<open>exec\<close> returns \<open>null\<close>.
\<close>

function tokenize_loop :: "jsstring \<Rightarrow> nat \<Rightarrow> nat \<Rightarrow> token list \<Rightarrow> nat \<times> token list" where
  "tokenize_loop content rx lastIndex elements =
     (case wordRegex_exec content rx of
        None \<Rightarrow> (lastIndex, elements)
      | Some (start, w) \<Rightarrow>
          tokenize_loop content (start + length w) (start + length w)
            ((if start > lastIndex
              then elements @ [\<lparr>tok_text = substring content lastIndex start, tok_index = lastIndex, isWord = False\<rparr>]
              else elements)
             @ [\<lparr>tok_text = w, tok_index = start, isWord = True\<rparr>]))"
  by pat_completeness auto
termination
proof (relation "measure (\<lambda>(content, rx, lastIndex, elements). Suc (length content) - rx)")
  show "wf (measure (\<lambda>(content, rx, lastIndex, elements). Suc (length content) - rx))"
    by simp
next
  fix content :: jsstring
  fix rx lastIndex start :: nat
  fix elements :: "token list"
  fix x2 :: "nat \<times> jsstring"
  fix w :: jsstring
  assume ex: "wordRegex_exec content rx = Some x2" and x2: "(start, w) = x2"
  define sp where "sp = takeWhile is_space (drop rx content)"
  from ex x2 have st: "start = rx + length sp"
    and tx: "w = takeWhile (\<lambda>c. \<not> is_space c) (drop start content)" and ne: "w \<noteq> []"
    by (auto simp: wordRegex_exec_def Let_def sp_def split: if_splits)
  have "length w \<le> length (drop start content)"
    unfolding tx by (rule length_takeWhile_le)
  moreover from ne tx have "drop start content \<noteq> []"
    by auto
  ultimately have "start + length w \<le> length content" "start < length content"
    by auto
  moreover have "rx < start + length w"
    using ne st by (cases w) auto
  ultimately show "((content, start + length w, start + length w,
       (if lastIndex < start
        then elements @ [\<lparr>tok_text = substring content lastIndex start, tok_index = lastIndex, isWord = False\<rparr>]
        else elements) @ [\<lparr>tok_text = w, tok_index = start, isWord = True\<rparr>]),
      content, rx, lastIndex, elements)
     \<in> measure (\<lambda>(content, rx, lastIndex, elements). Suc (length content) - rx)"
    by simp
qed

declare tokenize_loop.simps [simp del]

text \<open>The memoised value \<open>tokenizedContent\<close>: the loop, then the trailing whitespace.\<close>

definition tokenizedContent :: "jsstring \<Rightarrow> token list" where
  "tokenizedContent content =
     (case tokenize_loop content 0 0 [] of
        (lastIndex, elements) \<Rightarrow>
          if lastIndex < length content
          then elements @ [\<lparr>tok_text = substring_from content (int lastIndex), tok_index = lastIndex, isWord = False\<rparr>]
          else elements)"

text \<open>
  Two checks on a token list, used to state the properties of the tokenizer: \<open>tiles p ts\<close>
  says that the tokens lie end to end from offset \<open>p\<close>; \<open>kind_ok t\<close> that a token is not
  empty, a word holding no whitespace and a separator nothing else.
\<close>

fun tiles :: "nat \<Rightarrow> token list \<Rightarrow> bool" where
  "tiles p [] = True"
| "tiles p (t # ts) = (tok_index t = p \<and> tiles (p + length (tok_text t)) ts)"

definition kind_ok :: "token \<Rightarrow> bool" where
  "kind_ok t \<longleftrightarrow> tok_text t \<noteq> [] \<and> (if isWord t then list_all (\<lambda>c. \<not> is_space c) (tok_text t) else list_all is_space (tok_text t))"


section \<open>The speech engine\<close>

text \<open>
  \<open>window.speechSynthesis\<close> belongs to the browser. The application reads its flags
  \<open>speaking\<close> and \<open>paused\<close> and calls \<open>cancel\<close>, \<open>speak\<close>, \<open>pause\<close> and \<open>resume\<close>;
  the engine answers with events on the utterance it is speaking. The model keeps what
  the Web Speech API says the application can observe: the queue of utterances, the two
  flags, and the list of the calls made so far.
\<close>

record voice =
  voice_name :: jsstring
  lang :: jsstring

text \<open>
  A \<open>SpeechSynthesisUtterance\<close> as \<open>startReading\<close> builds it. Its handlers are closures
  over the parameter \<open>startIndex\<close> of the call that made it, which is kept as a field.
\<close>

record utterance =
  u_text :: jsstring
  u_voice :: "voice option"
  u_rate :: real
  u_pitch :: real
  startIndex :: int

datatype engine_call = Cancel | Speak utterance | PauseCall | ResumeCall

record engine =
  queue :: "utterance list"
  speaking :: bool
  paused :: bool
  calls :: "engine_call list"

text \<open>
  \<open>cancel()\<close> removes every utterance from the queue and ends the speaking; it leaves the
  paused state as it is. \<open>speak(u)\<close> appends to the queue.
\<close>

definition cancel :: "engine \<Rightarrow> engine" where
  "cancel e = e\<lparr>queue := [], speaking := False, calls := calls e @ [Cancel]\<rparr>"

definition speak :: "utterance \<Rightarrow> engine \<Rightarrow> engine" where
  "speak u e = e\<lparr>queue := queue e @ [u], calls := calls e @ [Speak u]\<rparr>"

definition pause :: "engine \<Rightarrow> engine" where
  "pause e = e\<lparr>paused := True, calls := calls e @ [PauseCall]\<rparr>"

definition resume :: "engine \<Rightarrow> engine" where
  "resume e = e\<lparr>paused := False, calls := calls e @ [ResumeCall]\<rparr>"

text \<open>The events of an utterance; a boundary event carries \<open>name\<close> and \<open>charIndex\<close>.\<close>

datatype engine_event =
    Ev_start | Ev_end | Ev_pause | Ev_resume | Ev_boundary jsstring int

text \<open>What the engine itself does when it emits an event of the utterance it speaks.\<close>

fun emit :: "engine_event \<Rightarrow> engine \<Rightarrow> engine" where
  "emit Ev_start e = e\<lparr>speaking := True\<rparr>"
| "emit Ev_end e = e\<lparr>queue := tl (queue e), speaking := False\<rparr>"
| "emit _ e = e"


section \<open>The narration session of App\<close>

record MarkdownFile =
  file_name :: jsstring
  file_content :: jsstring

text \<open>
  \<open>App\<close> is a function component: every render runs its body again and makes new
  closures \<open>startReading\<close>, \<open>handleRateChange\<close>, ... over the \<open>const\<close> values that
  \<open>useState\<close> returned in that render. \<open>startReading\<close> reads three of them: \<open>file\<close>,
  \<open>selectedVoice\<close> and \<open>rate\<close>. A \<open>render_scope\<close> holds these three as one render saw
  them. Refs (\<open>viewerRef\<close>, \<open>utteranceRef\<close>) and \<open>window.speechSynthesis\<close> are not
  captured: they are read when the code runs.
\<close>

record render_scope =
  sc_file :: "MarkdownFile option"
  sc_selectedVoice :: "voice option"
  sc_rate :: real

text \<open>
  A pending \<open>setTimeout(() => startReading(i), d)\<close>: the delay, the scope of the
  \<open>startReading\<close> that the arrow function closes over, and \<open>i\<close>.
\<close>

record timer =
  t_delay :: nat
  t_scope :: render_scope
  t_index :: int

text \<open>
  The state of \<open>App\<close>: its \<open>useState\<close> values (\<open>file\<close> is \<open>md_file\<close> here), the
  ref \<open>utteranceRef\<close>, the value of \<open>viewerRef.current.getInnerText()\<close> (\<open>None\<close> while
  \<open>viewerRef.current\<close> is null), the engine and the pending timers. The state of the
  layout (\<open>showGemini\<close>, \<open>contentWidth\<close>) plays no part in the narration and is left
  out, and so is the effect that loads the voices: \<open>voices\<close> and \<open>selectedVoice\<close> are
  whatever the state holds. Offsets are JavaScript numbers that hold integers; they are
  \<open>int\<close> here. The rate is only stored and handed on, never computed with.
\<close>

record app =
  md_file :: "MarkdownFile option"
  isPlaying :: bool
  isPaused :: bool
  currentWordIndex :: int
  voices :: "voice list"
  selectedVoice :: "voice option"
  rate :: real
  utteranceRef :: "utterance option"
  innerText :: "jsstring option"
  speechSynthesis :: engine
  timers :: "timer list"

text \<open>The scope of the closures of the render that shows state \<open>s\<close>.\<close>

definition render :: "app \<Rightarrow> render_scope" where
  "render s = \<lparr>sc_file = md_file s, sc_selectedVoice = selectedVoice s, sc_rate = rate s\<rparr>"

text \<open>
  \<open>startReading(startIndex)\<close>, the closure of scope \<open>sc\<close>, run in state \<open>s\<close>. The test
  \<open>'speechSynthesis' in window\<close> holds in every mounted \<open>App\<close>, whose mount effect
  has called \<open>window.speechSynthesis.getVoices()\<close>, so that the branch with the alert is
  not taken.
\<close>

definition startReading :: "render_scope \<Rightarrow> int \<Rightarrow> app \<Rightarrow> app" where
  "startReading sc i s =
     (case (sc_file sc, innerText s) of
        (Some f, Some textContent) \<Rightarrow>
          if js_trim textContent = [] then s
          else
            let s1 = s\<lparr>speechSynthesis := cancel (speechSynthesis s)\<rparr>;
                textToRead = substring_from textContent i
            in if js_trim textToRead = [] then s1
               else
                 let utterance = \<lparr>u_text = textToRead, u_voice = sc_selectedVoice sc,
                                   u_rate = sc_rate sc, u_pitch = 1, startIndex = i\<rparr>
                 in s1\<lparr>utteranceRef := Some utterance,
                       speechSynthesis := speak utterance (speechSynthesis s1)\<rparr>
      | _ \<Rightarrow> s)"

text \<open>The handlers that \<open>startReading\<close> puts on the utterance.\<close>

definition onstart :: "app \<Rightarrow> app" where
  "onstart s = s\<lparr>isPlaying := True, isPaused := False\<rparr>"

definition onend :: "app \<Rightarrow> app" where
  "onend s = s\<lparr>isPlaying := False, isPaused := False, currentWordIndex := - 1\<rparr>"

definition onpause :: "app \<Rightarrow> app" where
  "onpause s = s\<lparr>isPaused := True\<rparr>"

definition onresume :: "app \<Rightarrow> app" where
  "onresume s = s\<lparr>isPaused := False\<rparr>"

definition onboundary :: "utterance \<Rightarrow> jsstring \<Rightarrow> int \<Rightarrow> app \<Rightarrow> app" where
  "onboundary u event_name charIndex s =
     (if event_name = js ''word'' then s\<lparr>currentWordIndex := startIndex u + charIndex\<rparr> else s)"

text \<open>An event of utterance \<open>u\<close> reaches the handler that \<open>u\<close> carries for it.\<close>

fun dispatch :: "utterance \<Rightarrow> engine_event \<Rightarrow> app \<Rightarrow> app" where
  "dispatch u Ev_start s = onstart s"
| "dispatch u Ev_end s = onend s"
| "dispatch u Ev_pause s = onpause s"
| "dispatch u Ev_resume s = onresume s"
| "dispatch u (Ev_boundary event_name charIndex) s = onboundary u event_name charIndex s"

text \<open>
  The handlers of the controls. The user's action reaches the closure of the latest
  render, whose scope is \<open>render s\<close>; a timer keeps the scope it was made in.
\<close>

definition onWordClick :: "int \<Rightarrow> app \<Rightarrow> app" where
  "onWordClick i s =
     s\<lparr>speechSynthesis := cancel (speechSynthesis s),
       timers := timers s @ [\<lparr>t_delay = 10, t_scope = render s, t_index = i\<rparr>]\<rparr>"

definition handleRateChange :: "real \<Rightarrow> app \<Rightarrow> app" where
  "handleRateChange newRate s =
     (let s1 = s\<lparr>rate := newRate\<rparr>
      in if isPlaying s
         then
           let currentIndex = (if currentWordIndex s > 0 then currentWordIndex s else 0)
           in s1\<lparr>speechSynthesis := cancel (speechSynthesis s1),
                 timers := timers s1 @ [\<lparr>t_delay = 50, t_scope = render s, t_index = currentIndex\<rparr>]\<rparr>
         else s1)"

definition handleVoiceChange :: "jsstring \<Rightarrow> app \<Rightarrow> app" where
  "handleVoiceChange voiceName s =
     (case find (\<lambda>v. voice_name v = voiceName) (voices s) of
        None \<Rightarrow> s
      | Some v \<Rightarrow>
          let s1 = s\<lparr>selectedVoice := Some v\<rparr>
          in if isPlaying s
             then
               let currentIndex = (if currentWordIndex s > 0 then currentWordIndex s else 0)
               in s1\<lparr>speechSynthesis := cancel (speechSynthesis s1),
                     timers := timers s1 @ [\<lparr>t_delay = 50, t_scope = render s, t_index = currentIndex\<rparr>]\<rparr>
             else s1)"

definition pauseReading :: "app \<Rightarrow> app" where
  "pauseReading s =
     (if speaking (speechSynthesis s) \<and> \<not> paused (speechSynthesis s)
      then s\<lparr>speechSynthesis := pause (speechSynthesis s)\<rparr>
      else s)"

definition resumeReading :: "app \<Rightarrow> app" where
  "resumeReading s =
     (if paused (speechSynthesis s)
      then s\<lparr>speechSynthesis := resume (speechSynthesis s)\<rparr>
      else s)"

definition stopReading :: "app \<Rightarrow> app" where
  "stopReading s =
     s\<lparr>speechSynthesis := cancel (speechSynthesis s),
       isPlaying := False, isPaused := False, currentWordIndex := - 1\<rparr>"

definition replayReading :: "app \<Rightarrow> app" where
  "replayReading s =
     (let s1 = stopReading s
      in s1\<lparr>timers := timers s1 @ [\<lparr>t_delay = 100, t_scope = render s, t_index = 0\<rparr>]\<rparr>)"

text \<open>
  \<open>handleFileUpload(content, fileName)\<close>; \<open>rendered\<close> is the \<open>innerText\<close> of the viewer
  once it shows the new file.
\<close>

definition handleFileUpload :: "jsstring \<Rightarrow> jsstring \<Rightarrow> jsstring \<Rightarrow> app \<Rightarrow> app" where
  "handleFileUpload content_arg fileName rendered s =
     stopReading (s\<lparr>md_file := Some \<lparr>file_name = fileName, file_content = content_arg\<rparr>,
                    innerText := Some rendered\<rparr>)"

text \<open>
  What can happen to a mounted \<open>App\<close>, one thing at a time: the commands of the controls,
  the expiry of a pending timer, an event of the utterance at the head of the engine's
  queue, and an event of an utterance that is not queued any more (the engine has it
  cancelled, its handler is still the closure that \<open>startReading\<close> made).
\<close>

datatype action =
    Start int
  | Seek int
  | Stop
  | Replay
  | ChangeRate real
  | ChangeVoice jsstring
  | Pause
  | Resume
  | Upload jsstring jsstring jsstring
  | Timeout nat
  | Engine engine_event
  | Late utterance engine_event

fun step :: "action \<Rightarrow> app \<Rightarrow> app" where
  "step (Start i) s = startReading (render s) i s"
| "step (Seek i) s = onWordClick i s"
| "step Stop s = stopReading s"
| "step Replay s = replayReading s"
| "step (ChangeRate r) s = handleRateChange r s"
| "step (ChangeVoice n) s = handleVoiceChange n s"
| "step Pause s = pauseReading s"
| "step Resume s = resumeReading s"
| "step (Upload c n r) s = handleFileUpload c n r s"
| "step (Timeout k) s =
     (if k < length (timers s)
      then startReading (t_scope (timers s ! k)) (t_index (timers s ! k))
             (s\<lparr>timers := take k (timers s) @ drop (Suc k) (timers s)\<rparr>)
      else s)"
| "step (Engine ev) s =
     (case queue (speechSynthesis s) of
        [] \<Rightarrow> s
      | u # _ \<Rightarrow> dispatch u ev (s\<lparr>speechSynthesis := emit ev (speechSynthesis s)\<rparr>))"
| "step (Late u ev) s = dispatch u ev s"

fun run :: "action list \<Rightarrow> app \<Rightarrow> app" where
  "run [] s = s"
| "run (a # as) s = run as (step a s)"

text \<open>The state of a freshly mounted \<open>App\<close>, and the same with a file shown.\<close>

definition idle_engine :: engine where
  "idle_engine = \<lparr>queue = [], speaking = False, paused = False, calls = []\<rparr>"

definition initial :: app where
  "initial = \<lparr>md_file = None, isPlaying = False, isPaused = False, currentWordIndex = - 1,
              voices = [], selectedVoice = None, rate = 1, utteranceRef = None,
              innerText = None, speechSynthesis = idle_engine, timers = []\<rparr>"

definition opened :: "jsstring \<Rightarrow> app" where
  "opened doc = step (Upload doc (js ''a.md'') doc) initial"

text \<open>
  The queue of the engine is empty, or holds exactly the utterance that \<open>utteranceRef\<close>
  points to.
\<close>

definition one_stream :: "app \<Rightarrow> bool" where
  "one_stream s \<longleftrightarrow>
     queue (speechSynthesis s) = [] \<or> map Some (queue (speechSynthesis s)) = [utteranceRef s]"


section \<open>The rendered surface of MarkdownViewer\<close>

text \<open>
  The subtree of \<open>containerRef.current\<close>: text nodes and elements. \<open>Mark cs\<close> is a
  \<open><mark class="tts-highlight">\<close> element with children \<open>cs\<close>, the only kind of element
  that the highlight effect makes; \<open>Elem tag cs\<close> is any other element.
\<close>

datatype dom = Text jsstring | Elem string "dom list" | Mark "dom list"

text \<open>
  A reference to a node below the container, as the indices of the children to follow
  from the container down. \<open>highlightRef.current\<close> is such a reference, or null.
\<close>

type_synonym path = "nat list"

record viewer =
  container :: "dom list option"
  highlightRef :: "path option"

text \<open>\<open>node.textContent\<close>: the text of all text nodes below, in document order.\<close>

fun textContent :: "dom \<Rightarrow> jsstring" where
  "textContent (Text v) = v"
| "textContent (Elem tag cs) = concat (map textContent cs)"
| "textContent (Mark cs) = concat (map textContent cs)"

text \<open>
  \<open>parent.normalize()\<close> on the children of \<open>parent\<close>: empty text nodes go, adjacent text
  nodes become one, and the same is done below every element.
\<close>

fun normalize_nodes :: "dom list \<Rightarrow> dom list" where
  "normalize_nodes [] = []"
| "normalize_nodes (Text v # rest) =
     (if v = [] then normalize_nodes rest
      else (case normalize_nodes rest of
              Text w # rest' \<Rightarrow> Text (v @ w) # rest'
            | rest' \<Rightarrow> Text v # rest'))"
| "normalize_nodes (Elem tag cs # rest) = Elem tag (normalize_nodes cs) # normalize_nodes rest"
| "normalize_nodes (Mark cs # rest) = Mark (normalize_nodes cs) # normalize_nodes rest"

text \<open>
  The cleanup of the previous highlight, on the children \<open>cs\<close> of the container and the
  path of \<open>highlightRef.current\<close>: in the parent of the node,
  \<open>replaceChild(createTextNode(node.textContent), node)\<close> and then \<open>normalize()\<close>. A path
  that leads nowhere stands for a node that is no longer below the container, whose
  replacement happens elsewhere.
\<close>

fun remove_mark :: "path \<Rightarrow> dom list \<Rightarrow> dom list" where
  "remove_mark [] cs = cs"
| "remove_mark [k] cs =
     (if k < length cs then normalize_nodes (cs[k := Text (textContent (cs ! k))]) else cs)"
| "remove_mark (k # p) cs =
     (if k < length cs
      then (case cs ! k of
              Elem tag ds \<Rightarrow> cs[k := Elem tag (remove_mark p ds)]
            | Mark ds \<Rightarrow> cs[k := Mark (remove_mark p ds)]
            | Text v \<Rightarrow> cs)
      else cs)"

definition cleanup :: "viewer \<Rightarrow> viewer" where
  "cleanup st =
     (case highlightRef st of
        None \<Rightarrow> st
      | Some p \<Rightarrow> st\<lparr>container := map_option (remove_mark p) (container st), highlightRef := None\<rparr>)"

text \<open>
  The exceptions of the Range interface. \<open>range.setStart(node, k)\<close> and \<open>setEnd\<close> throw an
  \<open>IndexSizeError\<close> when \<open>k\<close> is greater than the length of the text node.
\<close>

datatype dom_exception = IndexSizeError | InvalidStateError | HierarchyRequestError

definition setBoundary :: "jsstring \<Rightarrow> nat \<Rightarrow> dom_exception + nat" where
  "setBoundary v k = (if k > length v then Inl IndexSizeError else Inr k)"

text \<open>
  \<open>range.surroundContents(mark)\<close> for a range from \<open>a\<close> to \<open>b\<close> inside one text node with
  value \<open>v\<close>. When it succeeds, the text node is split in three and the middle part is
  wrapped: the children of the parent get \<open>before\<close>, the mark holding the word, and
  \<open>after\<close> in the place of the text node (the parts at the ends may be empty text nodes).
  The source expects that the call can throw and catches it; whether it does is up to the
  browser, and is the parameter \<open>refuses\<close> here.
\<close>

type_synonym refusal = "jsstring \<Rightarrow> nat \<Rightarrow> nat \<Rightarrow> dom_exception option"

definition surroundContents :: "refusal \<Rightarrow> jsstring \<Rightarrow> nat \<Rightarrow> nat \<Rightarrow> dom_exception + dom list" where
  "surroundContents refuses v a b =
     (case refuses v a b of
        Some e \<Rightarrow> Inl e
      | None \<Rightarrow> Inr [Text (take a v), Mark [Text (take (b - a) (drop a v))], Text (drop b v)])"

text \<open>
  The body of \<open>if (charCount + nodeLength > currentWordIndex)\<close> up to the \<open>break\<close>, for
  the text node with value \<open>nodeValue\<close>. The result is \<open>Inl e\<close> for an exception that
  leaves the effect, \<open>Inr None\<close> when no mark is made (the guard fails, or
  \<open>surroundContents\<close> throws and the \<open>catch\<close> swallows it), and \<open>Inr (Some nodes)\<close> with
  the nodes that take the place of the text node.
\<close>

definition highlight_node :: "refusal \<Rightarrow> int \<Rightarrow> nat \<Rightarrow> jsstring \<Rightarrow> dom_exception + dom list option" where
  "highlight_node refuses idx charCount nodeValue =
     (let offset = nat (max 0 (idx - int charCount));
          remainingText = substring_from nodeValue (int offset);
          m = takeWhile is_word_char remainingText;
          wordLength = (if m = [] then 1 else length m)
      in if offset + wordLength \<le> length nodeValue
         then (case setBoundary nodeValue offset of
                 Inl e \<Rightarrow> Inl e
               | Inr a \<Rightarrow>
                   (case setBoundary nodeValue (offset + wordLength) of
                      Inl e \<Rightarrow> Inl e
                    | Inr b \<Rightarrow>
                        (case surroundContents refuses nodeValue a b of
                           Inl e \<Rightarrow> Inr None
                         | Inr nodes \<Rightarrow> Inr (Some nodes))))
         else Inr None)"

text \<open>
  The \<open>while\<close> loop over the text nodes that the \<open>TreeWalker\<close> yields, in document
  order, on a list of sibling nodes. \<open>charCount\<close> is the variable of the source, \<open>k\<close> the
  index of the first node of the list among the children of its parent. The walk misses
  (with the final \<open>charCount\<close>), or stops at a text node with the new siblings and the
  path of the new mark, if one was made, or is left by an exception.
\<close>

datatype walk = Miss nat | Hit "dom list" "path option" | Throw dom_exception

fun walk_nodes :: "refusal \<Rightarrow> int \<Rightarrow> nat \<Rightarrow> nat \<Rightarrow> dom list \<Rightarrow> walk" where
  "walk_nodes rf idx charCount k [] = Miss charCount"
| "walk_nodes rf idx charCount k (Text v # rest) =
     (if int (charCount + length v) > idx
      then (case highlight_node rf idx charCount v of
              Inl e \<Rightarrow> Throw e
            | Inr None \<Rightarrow> Hit (Text v # rest) None
            | Inr (Some nodes) \<Rightarrow> Hit (nodes @ rest) (Some [Suc k]))
      else (case walk_nodes rf idx (charCount + length v) (Suc k) rest of
              Hit rest' p \<Rightarrow> Hit (Text v # rest') p
            | r \<Rightarrow> r))"
| "walk_nodes rf idx charCount k (Elem tag cs # rest) =
     (case walk_nodes rf idx charCount 0 cs of
        Hit cs' p \<Rightarrow> Hit (Elem tag cs' # rest) (map_option ((#) k) p)
      | Throw e \<Rightarrow> Throw e
      | Miss charCount' \<Rightarrow>
          (case walk_nodes rf idx charCount' (Suc k) rest of
             Hit rest' p \<Rightarrow> Hit (Elem tag cs # rest') p
           | r \<Rightarrow> r))"
| "walk_nodes rf idx charCount k (Mark cs # rest) =
     (case walk_nodes rf idx charCount 0 cs of
        Hit cs' p \<Rightarrow> Hit (Mark cs' # rest) (map_option ((#) k) p)
      | Throw e \<Rightarrow> Throw e
      | Miss charCount' \<Rightarrow>
          (case walk_nodes rf idx charCount' (Suc k) rest of
             Hit rest' p \<Rightarrow> Hit (Mark cs # rest') p
           | r \<Rightarrow> r))"

text \<open>
  The highlight effect of \<open>MarkdownViewer\<close>, run with the props \<open>currentWordIndex = idx\<close>
  and \<open>isPlaying = playing\<close>: the cleanup, and then, unless the index is negative or
  nothing is playing, the walk that makes the new mark.
\<close>

definition apply_mark :: "refusal \<Rightarrow> int \<Rightarrow> viewer \<Rightarrow> dom_exception + viewer" where
  "apply_mark rf idx st =
     (case container st of
        None \<Rightarrow> Inr st
      | Some cs \<Rightarrow>
          (case walk_nodes rf idx 0 0 cs of
             Miss n \<Rightarrow> Inr st
           | Hit cs' p \<Rightarrow> Inr (st\<lparr>container := Some cs', highlightRef := p\<rparr>)
           | Throw e \<Rightarrow> Inl e))"

definition highlight_effect :: "refusal \<Rightarrow> int \<Rightarrow> bool \<Rightarrow> viewer \<Rightarrow> dom_exception + viewer" where
  "highlight_effect rf idx playing st =
     (case container st of
        None \<Rightarrow> Inr st
      | Some cs \<Rightarrow>
          if idx < 0 \<or> \<not> playing then Inr (cleanup st)
          else apply_mark rf idx (cleanup st))"

text \<open>
  The effect run once for each pair of props of a list, as long as no exception leaves
  it.
\<close>

fun highlight_effects :: "refusal \<Rightarrow> (int \<times> bool) list \<Rightarrow> viewer \<Rightarrow> dom_exception + viewer" where
  "highlight_effects rf [] st = Inr st"
| "highlight_effects rf ((idx, playing) # props) st =
     (case highlight_effect rf idx playing st of
        Inl e \<Rightarrow> Inl e
      | Inr st' \<Rightarrow> highlight_effects rf props st')"

text \<open>
  To state the properties: the number of marks on the surface, the text of the surface,
  the node that a path leads to, and the state in which \<open>highlightRef\<close> and the marks
  agree (no mark and no reference, or one mark and the reference to it).
\<close>

fun marks :: "dom \<Rightarrow> nat" where
  "marks (Text v) = 0"
| "marks (Elem tag cs) = sum_list (map marks cs)"
| "marks (Mark cs) = Suc (sum_list (map marks cs))"

definition marks_in :: "dom list \<Rightarrow> nat" where
  "marks_in cs = sum_list (map marks cs)"

definition text_in :: "dom list \<Rightarrow> jsstring" where
  "text_in cs = concat (map textContent cs)"

fun node_at :: "path \<Rightarrow> dom list \<Rightarrow> dom option" where
  "node_at [] cs = None"
| "node_at [k] cs = (if k < length cs then Some (cs ! k) else None)"
| "node_at (k # p) cs =
     (if k < length cs
      then (case cs ! k of
              Elem tag ds \<Rightarrow> node_at p ds
            | Mark ds \<Rightarrow> node_at p ds
            | Text v \<Rightarrow> None)
      else None)"

fun is_word_mark :: "dom option \<Rightarrow> bool" where
  "is_word_mark (Some (Mark [Text w])) = True"
| "is_word_mark _ = False"

definition highlight_ok :: "viewer \<Rightarrow> bool" where
  "highlight_ok st \<longleftrightarrow>
     (case container st of
        None \<Rightarrow> highlightRef st = None
      | Some cs \<Rightarrow>
          (case highlightRef st of
             None \<Rightarrow> marks_in cs = 0
           | Some p \<Rightarrow> marks_in cs = 1 \<and> is_word_mark (node_at p cs)))"

definition marks_on :: "viewer \<Rightarrow> nat" where
  "marks_on st = (case container st of None \<Rightarrow> 0 | Some cs \<Rightarrow> marks_in cs)"

definition text_on :: "viewer \<Rightarrow> jsstring" where
  "text_on st = (case container st of None \<Rightarrow> [] | Some cs \<Rightarrow> text_in cs)"

text \<open>
  A list of siblings on which \<open>normalize()\<close> has nothing to do, here and below: no empty
  text node, no two text nodes side by side.
\<close>

fun normalized :: "dom list \<Rightarrow> bool" where
  "normalized [] = True"
| "normalized (Text v # rest) =
     (v \<noteq> [] \<and> (case rest of Text w # rest' \<Rightarrow> False | _ \<Rightarrow> True) \<and> normalized rest)"
| "normalized (Elem tag cs # rest) = (normalized cs \<and> normalized rest)"
| "normalized (Mark cs # rest) = (normalized cs \<and> normalized rest)"

definition normalized_on :: "viewer \<Rightarrow> bool" where
  "normalized_on st = (case container st of None \<Rightarrow> True | Some cs \<Rightarrow> normalized cs)"

text \<open>
  To say which wrap a run of the effect asks for: \<open>word_range\<close> is the range from
  \<open>offset\<close> to \<open>offset + wordLength\<close> as the loop body computes it for a text node, and
  \<open>find_target\<close> follows the loop to the text node at which it stops. The target is the
  text node and the range handed to \<open>setStart\<close>, \<open>setEnd\<close> and \<open>surroundContents\<close>, or no
  range when the guard \<open>offset + wordLength <= nodeValue.length\<close> fails, or no node at all
  when the loop runs past the last text node (with the final \<open>charCount\<close>). Neither
  depends on what the browser then does with the range.
\<close>

definition word_range :: "int \<Rightarrow> nat \<Rightarrow> jsstring \<Rightarrow> nat \<times> nat" where
  "word_range idx charCount nodeValue =
     (let offset = nat (max 0 (idx - int charCount));
          remainingText = substring_from nodeValue (int offset);
          m = takeWhile is_word_char remainingText;
          wordLength = (if m = [] then 1 else length m)
      in (offset, offset + wordLength))"

datatype target = No_node nat | No_range | Wrap jsstring nat nat

fun find_target :: "int \<Rightarrow> nat \<Rightarrow> dom list \<Rightarrow> target" where
  "find_target idx charCount [] = No_node charCount"
| "find_target idx charCount (Text v # rest) =
     (if int (charCount + length v) > idx
      then (case word_range idx charCount v of
              (a, b) \<Rightarrow> if b \<le> length v then Wrap v a b else No_range)
      else find_target idx (charCount + length v) rest)"
| "find_target idx charCount (Elem tag cs # rest) =
     (case find_target idx charCount cs of
        No_node charCount' \<Rightarrow> find_target idx charCount' rest
      | t \<Rightarrow> t)"
| "find_target idx charCount (Mark cs # rest) =
     (case find_target idx charCount cs of
        No_node charCount' \<Rightarrow> find_target idx charCount' rest
      | t \<Rightarrow> t)"

definition attempted :: "int \<Rightarrow> viewer \<Rightarrow> target" where
  "attempted idx st = (case container st of None \<Rightarrow> No_node 0 | Some cs \<Rightarrow> find_target idx 0 cs)"


section \<open>Properties of the tokenizer\<close>

lemma tiles_append:
  "tiles p (xs @ ys) = (tiles p xs \<and> tiles (p + length (concat (map tok_text xs))) ys)"
  by (induction xs arbitrary: p) (auto simp: add.assoc)

lemma take_drop_split:
  "a \<le> b \<Longrightarrow> b \<le> c \<Longrightarrow> take (c - a) (drop a xs) = take (b - a) (drop a xs) @ take (c - b) (drop b xs)"
proof -
  assume ab: "a \<le> b" and bc: "b \<le> c"
  then have "c - a = (b - a) + (c - b)" by simp
  then have "take (c - a) (drop a xs) = take (b - a) (drop a xs) @ take (c - b) (drop (b - a) (drop a xs))"
    by (simp only: take_add)
  with ab show ?thesis by simp
qed

lemma substring_take_drop: "a \<le> b \<Longrightarrow> substring s a b = take (b - a) (drop a s)"
  by (auto simp: substring_def Let_def min_def max_def)

lemma exec_None:
  assumes "wordRegex_exec c p = None"
  shows "\<forall>x\<in>set (drop p c). is_space x"
proof -
  let ?xs = "drop p c"
  have d: "drop (p + length (takeWhile is_space ?xs)) c = dropWhile is_space ?xs"
    by (simp add: dropWhile_eq_drop add.commute)
  from assms have "takeWhile (\<lambda>x. \<not> is_space x) (dropWhile is_space ?xs) = []"
    by (simp add: wordRegex_exec_def Let_def d split: if_splits)
  moreover have "dropWhile is_space ?xs \<noteq> [] \<Longrightarrow> \<not> is_space (hd (dropWhile is_space ?xs))"
    by (rule hd_dropWhile)
  ultimately have "dropWhile is_space ?xs = []"
    by (cases "dropWhile is_space ?xs") auto
  then show ?thesis by (simp add: dropWhile_eq_Nil_conv)
qed

lemma exec_Some:
  assumes "wordRegex_exec c p = Some (start, w)"
  shows "w \<noteq> []" "\<forall>x\<in>set w. \<not> is_space x" "p \<le> start" "start + length w \<le> length c"
    "take (length w) (drop start c) = w"
    "\<forall>x\<in>set (take (start - p) (drop p c)). is_space x"
    "\<not> is_space (c ! (start + length w - 1))"
    "start = p + length (takeWhile is_space (drop p c))"
    "w = takeWhile (\<lambda>x. \<not> is_space x) (drop start c)"
proof -
  from assms have st: "start = p + length (takeWhile is_space (drop p c))"
    and w: "w = takeWhile (\<lambda>x. \<not> is_space x) (drop start c)" and ne: "w \<noteq> []"
    by (auto simp: wordRegex_exec_def Let_def split: if_splits)
  show "w \<noteq> []" by fact
  show "start = p + length (takeWhile is_space (drop p c))" by fact
  show "w = takeWhile (\<lambda>x. \<not> is_space x) (drop start c)" by fact
  show ns: "\<forall>x\<in>set w. \<not> is_space x"
    unfolding w by (auto dest: set_takeWhileD)
  show "p \<le> start" using st by simp
  have lw: "length w \<le> length (drop start c)"
    unfolding w by (rule length_takeWhile_le)
  from ne w have "drop start c \<noteq> []" by auto
  with lw show le: "start + length w \<le> length c" by auto
  show tk: "take (length w) (drop start c) = w"
    unfolding w by (rule takeWhile_eq_take[symmetric])
  have "take (start - p) (drop p c) = take (length (takeWhile is_space (drop p c))) (drop p c)"
    using st by simp
  also have "\<dots> = takeWhile is_space (drop p c)"
    by (rule takeWhile_eq_take[symmetric])
  finally have "take (start - p) (drop p c) = takeWhile is_space (drop p c)" .
  then show "\<forall>x\<in>set (take (start - p) (drop p c)). is_space x"
    by (auto dest: set_takeWhileD)
  have "c ! (start + length w - 1) = drop start c ! (length w - 1)"
    using ne le by (cases w) auto
  also have "\<dots> = take (length w) (drop start c) ! (length w - 1)"
    using ne by (cases w) auto
  also have "\<dots> = last w"
    unfolding tk using ne by (simp add: last_conv_nth)
  finally show "\<not> is_space (c ! (start + length w - 1))"
    using ns ne by auto
qed

lemma loop_inv:
  assumes "tokenize_loop content rx lastIndex els = (q, els')" "rx = lastIndex" "lastIndex \<le> length content"
  shows "\<exists>more. els' = els @ more \<and> tiles lastIndex more
           \<and> concat (map tok_text more) = take (q - lastIndex) (drop lastIndex content)
           \<and> lastIndex \<le> q \<and> q \<le> length content
           \<and> (\<forall>c\<in>set (drop q content). is_space c)
           \<and> (q = lastIndex \<or> \<not> is_space (content ! (q - 1)))
           \<and> list_all kind_ok more"
  using assms
proof (induction content rx lastIndex els arbitrary: q els' rule: tokenize_loop.induct)
  case (1 content rx lastIndex elements)
  show ?case
  proof (cases "wordRegex_exec content rx")
    case None
    have "tokenize_loop content rx lastIndex elements = (lastIndex, elements)"
      by (subst tokenize_loop.simps) (simp add: None)
    with "1.prems"(1) have "q = lastIndex" "els' = elements"
      by simp_all
    with None "1.prems" exec_None[OF None] show ?thesis
      by auto
  next
    case (Some a)
    obtain start w where a: "a = (start, w)" by (cases a)
    note ex = exec_Some[OF Some[unfolded a]]
    let ?sep = "\<lparr>tok_text = substring content lastIndex start, tok_index = lastIndex, isWord = False\<rparr>"
    let ?wd = "\<lparr>tok_text = w, tok_index = start, isWord = True\<rparr>"
    let ?new = "(if start > lastIndex then [?sep] else []) @ [?wd]"
    let ?e = "start + length w"
    have "tokenize_loop content rx lastIndex elements = tokenize_loop content ?e ?e (elements @ ?new)"
      by (subst tokenize_loop.simps) (simp add: Some a)
    with "1.prems"(1) have run: "tokenize_loop content ?e ?e (elements @ ?new) = (q, els')"
      by simp
    have elts: "(if lastIndex < start then elements @ [?sep] else elements) @ [?wd] = elements @ ?new"
      by simp
    from "1.IH"[OF Some a[symmetric], unfolded elts, OF run refl ex(4)]
    obtain more where m: "els' = (elements @ ?new) @ more" "tiles ?e more"
      "concat (map tok_text more) = take (q - ?e) (drop ?e content)"
      "?e \<le> q" "q \<le> length content" "\<forall>c\<in>set (drop q content). is_space c"
      "q = ?e \<or> \<not> is_space (content ! (q - 1))" "list_all kind_ok more"
      by blast
    have le: "lastIndex \<le> start" using ex(3) "1.prems"(2) by simp
    have sep: "substring content lastIndex start = take (start - lastIndex) (drop lastIndex content)"
      using le by (rule substring_take_drop)
    have cnew: "concat (map tok_text ?new) = take (?e - lastIndex) (drop lastIndex content)"
    proof -
      have "take (?e - lastIndex) (drop lastIndex content)
          = take (start - lastIndex) (drop lastIndex content) @ take (length w) (drop start content)"
        using take_drop_split[of lastIndex start ?e content] le by simp
      then show ?thesis using ex(5) sep le by auto
    qed
    have tnew: "tiles lastIndex ?new"
      using le ex(4) "1.prems"(3) by (auto simp: sep)
    have knew: "list_all kind_ok ?new"
      using ex(1,2,6) "1.prems"(2) le ex(4) by (auto simp: kind_ok_def sep list_all_iff)
    have lnew: "lastIndex + length (concat (map tok_text ?new)) = ?e"
      using cnew le ex(4) by simp
    have "concat (map tok_text (?new @ more)) = take (q - lastIndex) (drop lastIndex content)"
    proof -
      have "take (q - lastIndex) (drop lastIndex content)
          = take (?e - lastIndex) (drop lastIndex content) @ take (q - ?e) (drop ?e content)"
        using take_drop_split[of lastIndex ?e q content] le m(4) by simp
      then show ?thesis using cnew m(3) by simp
    qed
    moreover have "tiles lastIndex (?new @ more)"
      using tnew m(2) by (simp only: tiles_append lnew simp_thms)
    moreover have "q = lastIndex \<or> \<not> is_space (content ! (q - 1))"
      using m(7) ex(7) by auto
    moreover have "list_all kind_ok (?new @ more)"
      using knew m(8) by simp
    ultimately show ?thesis
      using m(1,4,5,6) le by (intro exI[of _ "?new @ more"]) auto
  qed
qed


lemma tiles_nth:
  "tiles p ts \<Longrightarrow> k < length ts \<Longrightarrow> tok_index (ts ! k) = p + length (concat (map tok_text (take k ts)))"
proof (induction ts arbitrary: p k)
  case Nil
  then show ?case by simp
next
  case (Cons t ts)
  then show ?case by (cases k) (auto simp: add.assoc)
qed

lemma tiles_slices:
  "tiles p ts \<Longrightarrow> take (length (concat (map tok_text ts))) (drop p s) = concat (map tok_text ts) \<Longrightarrow>
   \<forall>t\<in>set ts. take (length (tok_text t)) (drop (tok_index t) s) = tok_text t"
proof (induction ts arbitrary: p)
  case Nil
  then show ?case by simp
next
  case (Cons t ts)
  let ?a = "tok_text t" and ?b = "concat (map tok_text ts)"
  from Cons.prems(2) have eq: "take (length ?a + length ?b) (drop p s) = ?a @ ?b"
    by simp
  have "take (length ?a + length ?b) (drop p s)
      = take (length ?a) (drop p s) @ take (length ?b) (drop (p + length ?a) s)"
    by (simp add: take_add add.commute)
  with eq have "take (length ?a) (drop p s) @ take (length ?b) (drop (p + length ?a) s) = ?a @ ?b"
    by simp
  moreover have "length (take (length ?a) (drop p s)) = length ?a"
  proof -
    from eq have "length (take (length ?a + length ?b) (drop p s)) = length ?a + length ?b"
      by simp
    then show ?thesis by simp
  qed
  ultimately have hd: "take (length ?a) (drop p s) = ?a"
    and tl: "take (length ?b) (drop (p + length ?a) s) = ?b"
    by simp_all
  from Cons.prems(1) have "tok_index t = p" "tiles (p + length ?a) ts"
    by simp_all
  with Cons.IH[OF _ tl] hd show ?case by simp
qed

lemma tokenizedContent_cases:
  obtains (trail) q more where "tokenize_loop s 0 0 [] = (q, more)" "q < length s"
      "tokenizedContent s = more @ [\<lparr>tok_text = drop q s, tok_index = q, isWord = False\<rparr>]"
      "tiles 0 more" "concat (map tok_text more) = take q s" "\<forall>c\<in>set (drop q s). is_space c"
      "q = 0 \<or> \<not> is_space (s ! (q - 1))" "list_all kind_ok more"
  | (exact) more where "tokenize_loop s 0 0 [] = (length s, more)"
      "tokenizedContent s = more"
      "tiles 0 more" "concat (map tok_text more) = s"
      "s = [] \<or> \<not> is_space (s ! (length s - 1))" "list_all kind_ok more"
proof -
  obtain q els where r: "tokenize_loop s 0 0 [] = (q, els)"
    by (cases "tokenize_loop s 0 0 []")
  from loop_inv[OF r refl] have inv: "tiles 0 els" "concat (map tok_text els) = take q s"
    "q \<le> length s" "\<forall>c\<in>set (drop q s). is_space c" "q = 0 \<or> \<not> is_space (s ! (q - 1))"
    "list_all kind_ok els"
    by auto
  show thesis
  proof (cases "q < length s")
    case True
    then have "tokenizedContent s = els @ [\<lparr>tok_text = drop q s, tok_index = q, isWord = False\<rparr>]"
      by (simp add: tokenizedContent_def r substring_from_def)
    with True r inv show thesis by (intro trail) auto
  next
    case False
    with inv(3) have q: "q = length s" by simp
    then have "tokenizedContent s = els"
      by (simp add: tokenizedContent_def r)
    with q r inv show thesis by (intro exact) auto
  qed
qed

lemma tokenizedContent_concat: "concat (map tok_text (tokenizedContent s)) = s"
  by (cases s rule: tokenizedContent_cases) simp_all

lemma tokenizedContent_tiles: "tiles 0 (tokenizedContent s)"
proof (cases s rule: tokenizedContent_cases)
  case (trail q more)
  then have "q \<le> length s" by simp
  then have "length (take q s) = q" by simp
  with trail show ?thesis by (simp add: tiles_append)
next
  case (exact more)
  then show ?thesis by simp
qed

lemma tokenizedContent_kinds: "list_all kind_ok (tokenizedContent s)"
proof (cases s rule: tokenizedContent_cases)
  case (trail q more)
  then show ?thesis by (auto simp: kind_ok_def list_all_iff)
next
  case (exact more)
  then show ?thesis by simp
qed

text \<open>
  Claim C3. For every string \<open>s\<close>, the texts of the tokens of \<open>tokenizedContent s\<close>,
  concatenated in order, are \<open>s\<close>; every token starts where the tokens before it end, so
  that there is neither a gap nor an overlap; and the \<open>index\<close> of every token is the place
  of its text in \<open>s\<close>: \<open>s.substring(index, index + text.length)\<close> is the text.
\<close>

theorem tokenize_partition:
  "concat (map tok_text (tokenizedContent s)) = s
   \<and> (\<forall>k<length (tokenizedContent s).
         tok_index (tokenizedContent s ! k) = length (concat (map tok_text (take k (tokenizedContent s)))))
   \<and> (\<forall>t\<in>set (tokenizedContent s).
         substring s (tok_index t) (tok_index t + length (tok_text t)) = tok_text t)"
proof (intro conjI allI impI ballI)
  show "concat (map tok_text (tokenizedContent s)) = s"
    by (rule tokenizedContent_concat)
next
  fix k assume "k < length (tokenizedContent s)"
  with tiles_nth[OF tokenizedContent_tiles, of k s]
  show "tok_index (tokenizedContent s ! k) = length (concat (map tok_text (take k (tokenizedContent s))))"
    by simp
next
  fix t assume t: "t \<in> set (tokenizedContent s)"
  have "take (length (concat (map tok_text (tokenizedContent s)))) (drop 0 s)
      = concat (map tok_text (tokenizedContent s))"
    by (simp add: tokenizedContent_concat)
  from tiles_slices[OF tokenizedContent_tiles this] t
  have "take (length (tok_text t)) (drop (tok_index t) s) = tok_text t"
    by blast
  then show "substring s (tok_index t) (tok_index t + length (tok_text t)) = tok_text t"
    by (simp add: substring_take_drop)
qed


theorem tokenize_partition_witness:
  "tokenizedContent (js '' ab  c'') =
     [\<lparr>tok_text = js '' '', tok_index = 0, isWord = False\<rparr>,
      \<lparr>tok_text = js ''ab'', tok_index = 1, isWord = True\<rparr>,
      \<lparr>tok_text = js ''  '', tok_index = 3, isWord = False\<rparr>,
      \<lparr>tok_text = js ''c'', tok_index = 5, isWord = True\<rparr>]
   \<and> concat (map tok_text (tokenizedContent (js '' ab  c''))) = js '' ab  c''
   \<and> 2 < length (tokenizedContent (js '' ab  c''))
   \<and> tok_index (tokenizedContent (js '' ab  c'') ! 2)
         = length (concat (map tok_text (take 2 (tokenizedContent (js '' ab  c'')))))
   \<and> \<lparr>tok_text = js ''  '', tok_index = 3, isWord = False\<rparr> \<in> set (tokenizedContent (js '' ab  c''))
   \<and> substring (js '' ab  c'') 3 (3 + length (js ''  '')) = js ''  ''"
proof -
  let ?s = "js '' ab  c''"
  let ?t = "\<lparr>tok_text = js ''  '', tok_index = 3, isWord = False\<rparr>"
  have toks: "tokenizedContent ?s =
     [\<lparr>tok_text = js '' '', tok_index = 0, isWord = False\<rparr>,
      \<lparr>tok_text = js ''ab'', tok_index = 1, isWord = True\<rparr>,
      ?t,
      \<lparr>tok_text = js ''c'', tok_index = 5, isWord = True\<rparr>]"
    by code_simp
  have len: "2 < length (tokenizedContent ?s)" and mem: "?t \<in> set (tokenizedContent ?s)"
    by (simp_all add: toks)
  note p = tokenize_partition [of ?s]
  from p have "concat (map tok_text (tokenizedContent ?s)) = ?s"
    by (rule conjunct1)
  moreover from p len have "tok_index (tokenizedContent ?s ! 2)
      = length (concat (map tok_text (take 2 (tokenizedContent ?s))))"
    by blast
  moreover from p mem
  have "substring ?s (tok_index ?t) (tok_index ?t + length (tok_text ?t)) = tok_text ?t"
    by blast
  then have "substring ?s 3 (3 + length (js ''  '')) = js ''  ''"
    by simp
  ultimately show ?thesis
    using toks len mem by blast
qed

lemma tokenize_empty: "tokenizedContent [] = []"
proof -
  have "wordRegex_exec [] 0 = None"
    by (simp add: wordRegex_exec_def)
  then have "tokenize_loop [] 0 0 [] = (0, [])"
    by (subst tokenize_loop.simps) simp
  then show ?thesis by (simp add: tokenizedContent_def)
qed

lemma tokenize_no_space:
  assumes "s \<noteq> []" "\<forall>c\<in>set s. \<not> is_space c"
  shows "tokenizedContent s = [\<lparr>tok_text = s, tok_index = 0, isWord = True\<rparr>]"
proof -
  from assms have t1: "takeWhile is_space s = []"
    by (cases s) auto
  from assms(2) have t2: "takeWhile (\<lambda>c. \<not> is_space c) s = s"
    by (simp add: takeWhile_eq_all_conv)
  have e0: "wordRegex_exec s 0 = Some (0, s)"
    using assms(1) by (simp add: wordRegex_exec_def Let_def t1 t2)
  have e1: "wordRegex_exec s (length s) = None"
    by (simp add: wordRegex_exec_def)
  have "tokenize_loop s 0 0 [] = tokenize_loop s (length s) (length s) [\<lparr>tok_text = s, tok_index = 0, isWord = True\<rparr>]"
    by (subst tokenize_loop.simps) (simp add: e0)
  also have "\<dots> = (length s, [\<lparr>tok_text = s, tok_index = 0, isWord = True\<rparr>])"
    by (subst tokenize_loop.simps) (simp add: e1)
  finally show ?thesis by (simp add: tokenizedContent_def)
qed

lemma tokenize_leading:
  assumes "s \<noteq> []" "is_space (hd s)"
  shows "tokenizedContent s \<noteq> [] \<and>
         hd (tokenizedContent s) = \<lparr>tok_text = takeWhile is_space s, tok_index = 0, isWord = False\<rparr>"
proof (cases "wordRegex_exec s 0")
  case None
  from exec_None[OF None] have all: "\<forall>c\<in>set s. is_space c" by simp
  have r: "tokenize_loop s 0 0 [] = (0, [])"
    by (subst tokenize_loop.simps) (simp add: None)
  from all have tw: "takeWhile is_space s = s"
    by (simp add: takeWhile_eq_all_conv)
  show ?thesis
    using assms(1) by (simp add: tokenizedContent_def substring_from_def r tw)
next
  case (Some a)
  obtain start w where a: "a = (start, w)" by (cases a)
  note ex = exec_Some[OF Some[unfolded a]]
  from assms have "takeWhile is_space s \<noteq> []"
    by (cases s) auto
  with ex(8) have pos: "0 < start" by simp
  let ?sep = "\<lparr>tok_text = substring s 0 start, tok_index = 0, isWord = False\<rparr>"
  let ?wd = "\<lparr>tok_text = w, tok_index = start, isWord = True\<rparr>"
  have "substring s 0 start = take start s"
    by (simp add: substring_take_drop)
  also have "\<dots> = takeWhile is_space s"
    using ex(8) by (simp add: takeWhile_eq_take[symmetric])
  finally have sep: "substring s 0 start = takeWhile is_space s" .
  obtain q els where r: "tokenize_loop s (start + length w) (start + length w) [?sep, ?wd] = (q, els)"
    by (cases "tokenize_loop s (start + length w) (start + length w) [?sep, ?wd]")
  from loop_inv[OF r refl ex(4)] obtain more where els: "els = [?sep, ?wd] @ more"
    by blast
  have "tokenize_loop s 0 0 [] = tokenize_loop s (start + length w) (start + length w) [?sep, ?wd]"
    by (subst tokenize_loop.simps) (simp add: Some a pos)
  with r els have "tokenize_loop s 0 0 [] = (q, ?sep # ?wd # more)"
    by simp
  then show ?thesis
    by (simp add: tokenizedContent_def sep)
qed

lemma trailing_run:
  assumes "q \<le> length s" "\<forall>c\<in>set (drop q s). is_space c" "q = 0 \<or> \<not> is_space (s ! (q - 1))"
  shows "takeWhile is_space (rev s) = rev (drop q s)"
proof -
  have "rev s = rev (drop q s) @ rev (take q s)"
    by (metis append_take_drop_id rev_append)
  moreover have "takeWhile is_space (rev (drop q s) @ rev (take q s))
      = rev (drop q s) @ takeWhile is_space (rev (take q s))"
    using assms(2) by (intro takeWhile_append2) simp
  moreover have "takeWhile is_space (rev (take q s)) = []"
  proof (cases "q = 0")
    case True
    then show ?thesis by simp
  next
    case False
    with assms(1) have ne: "take q s \<noteq> []" by auto
    have "hd (rev (take q s)) = last (take q s)"
      using ne by (simp add: hd_rev)
    also have "\<dots> = s ! (q - 1)"
      using ne assms(1) False by (simp add: last_conv_nth)
    finally have "\<not> is_space (hd (rev (take q s)))"
      using assms(3) False by simp
    with ne show ?thesis by (cases "rev (take q s)") auto
  qed
  ultimately show ?thesis by simp
qed

lemma tokenize_trailing:
  assumes "s \<noteq> []" "is_space (last s)"
  shows "tokenizedContent s \<noteq> [] \<and>
         last (tokenizedContent s) =
           \<lparr>tok_text = rev (takeWhile is_space (rev s)),
            tok_index = length s - length (takeWhile is_space (rev s)), isWord = False\<rparr>"
proof (cases s rule: tokenizedContent_cases)
  case (trail q more)
  from trail(2) have "q \<le> length s" by simp
  from trailing_run[OF this trail(6,7)] trail(2,3) show ?thesis by simp
next
  case (exact more)
  with assms have False by (simp add: last_conv_nth)
  then show ?thesis ..
qed

section \<open>Properties of the narration session\<close>

lemma js_trim_empty_iff: "js_trim s = [] \<longleftrightarrow> (\<forall>c\<in>set s. is_space c)"
proof -
  have "js_trim s = [] \<longleftrightarrow> (\<forall>c\<in>set (dropWhile is_space s). is_space c)"
    by (simp add: js_trim_def dropWhile_eq_Nil_conv)
  also have "\<dots> \<longleftrightarrow> dropWhile is_space s = []"
  proof
    assume a: "\<forall>c\<in>set (dropWhile is_space s). is_space c"
    show "dropWhile is_space s = []"
    proof (rule ccontr)
      assume ne: "dropWhile is_space s \<noteq> []"
      then have "\<not> is_space (hd (dropWhile is_space s))" by (rule hd_dropWhile)
      moreover from ne have "hd (dropWhile is_space s) \<in> set (dropWhile is_space s)" by simp
      ultimately show False using a by blast
    qed
  qed (auto dest: set_dropWhileD)
  also have "\<dots> \<longleftrightarrow> (\<forall>c\<in>set s. is_space c)"
    by (simp add: dropWhile_eq_Nil_conv)
  finally show ?thesis .
qed

lemma blank_suffix: "js_trim t = [] \<Longrightarrow> js_trim (substring_from t i) = []"
  by (auto simp: js_trim_empty_iff substring_from_def dest: in_set_dropD)

lemma blank_past_end: "int (length t) \<le> i \<Longrightarrow> js_trim (substring_from t i) = []"
  by (simp add: js_trim_empty_iff substring_from_def)

text \<open>The three outcomes of \<open>startReading\<close>.\<close>

lemma startReading_speaks:
  assumes "sc_file sc \<noteq> None" "innerText s = Some t" "js_trim (substring_from t i) \<noteq> []"
  shows "startReading sc i s =
           s\<lparr>utteranceRef := Some \<lparr>u_text = substring_from t i, u_voice = sc_selectedVoice sc,
                                     u_rate = sc_rate sc, u_pitch = 1, startIndex = i\<rparr>,
             speechSynthesis := speak \<lparr>u_text = substring_from t i, u_voice = sc_selectedVoice sc,
                                     u_rate = sc_rate sc, u_pitch = 1, startIndex = i\<rparr>
                                  (cancel (speechSynthesis s))\<rparr>"
proof -
  from assms(3) have "js_trim t \<noteq> []"
    using blank_suffix by blast
  with assms show ?thesis
    by (auto simp: startReading_def Let_def)
qed

lemma startReading_blank_slice:
  assumes "innerText s = Some t" "js_trim (substring_from t i) = []"
  shows "startReading sc i s = s \<or> startReading sc i s = s\<lparr>speechSynthesis := cancel (speechSynthesis s)\<rparr>"
  using assms by (auto simp: startReading_def Let_def split: option.splits)

lemma startReading_blank_doc:
  assumes "innerText s = Some t" "js_trim t = []"
  shows "startReading sc i s = s"
  using assms by (auto simp: startReading_def split: option.splits)

lemma startReading_cases:
  obtains (same) "startReading sc i s = s"
  | (cancelled) "startReading sc i s = s\<lparr>speechSynthesis := cancel (speechSynthesis s)\<rparr>"
  | (spoken) u where "startReading sc i s =
       s\<lparr>utteranceRef := Some u, speechSynthesis := speak u (cancel (speechSynthesis s))\<rparr>"
      "startIndex u = i" "u_rate u = sc_rate sc" "u_voice u = sc_selectedVoice sc"
proof (cases "sc_file sc = None \<or> innerText s = None")
  case True
  then have "startReading sc i s = s"
    by (auto simp: startReading_def split: option.splits)
  then show thesis by (rule same)
next
  case False
  then obtain f t where ft: "sc_file sc = Some f" "innerText s = Some t"
    by auto
  show thesis
  proof (cases "js_trim (substring_from t i) = []")
    case True
    from startReading_blank_slice[OF ft(2) True] show thesis
      using same cancelled by blast
  next
    case False
    from ft(1) have "sc_file sc \<noteq> None" by simp
    from startReading_speaks[OF this ft(2) False] show thesis
      by (rule spoken) simp_all
  qed
qed

lemma startReading_frame:
  "startReading sc i s = s\<lparr>utteranceRef := utteranceRef (startReading sc i s),
                            speechSynthesis := speechSynthesis (startReading sc i s)\<rparr>"
  by (cases sc i s rule: startReading_cases) simp_all


lemma run_append: "run (as @ bs) s = run bs (run as s)"
  by (induction as arbitrary: s) simp_all

lemma handlers_engine [simp]:
  "speechSynthesis (onstart s) = speechSynthesis s"
  "speechSynthesis (onend s) = speechSynthesis s"
  "speechSynthesis (onpause s) = speechSynthesis s"
  "speechSynthesis (onresume s) = speechSynthesis s"
  "speechSynthesis (onboundary u n c s) = speechSynthesis s"
  by (simp_all add: onstart_def onend_def onpause_def onresume_def onboundary_def)

lemma dispatch_engine [simp]: "speechSynthesis (dispatch u ev s) = speechSynthesis s"
  by (cases ev) simp_all

lemma engine_events_keep_head:
  assumes "queue (speechSynthesis s) = [u]" "Ev_end \<notin> set evs"
  shows "queue (speechSynthesis (run (map Engine evs) s)) = [u]"
  using assms
proof (induction evs arbitrary: s)
  case Nil
  then show ?case by simp
next
  case (Cons ev evs)
  from Cons.prems have "queue (speechSynthesis (step (Engine ev) s)) = [u]"
    by (cases ev) simp_all
  with Cons show ?case by simp
qed

text \<open>
  Claim C1. When \<open>startReading(startIndex)\<close> has started a stream, however many events
  of that stream follow, a word boundary event with local index \<open>c\<close> sets
  \<open>currentWordIndex\<close> to \<open>startIndex + c\<close>. For the document "alpha beta gamma": after
  Start(0) the boundary at 6 gives 6, and after Seek(12) the boundary at 0 gives 12.
\<close>

theorem boundary_offset:
  assumes "sc_file sc \<noteq> None" and "innerText s = Some t"
    and "js_trim (substring_from t i) \<noteq> []" and "Ev_end \<notin> set evs"
  shows "currentWordIndex
           (run (map Engine evs @ [Engine (Ev_boundary (js ''word'') c)]) (startReading sc i s))
         = i + c"
proof -
  let ?u = "\<lparr>u_text = substring_from t i, u_voice = sc_selectedVoice sc,
              u_rate = sc_rate sc, u_pitch = 1, startIndex = i\<rparr>"
  have "queue (speechSynthesis (startReading sc i s)) = [?u]"
    by (simp add: startReading_speaks[OF assms(1-3)] speak_def cancel_def)
  from engine_events_keep_head[OF this assms(4)]
  have "queue (speechSynthesis (run (map Engine evs) (startReading sc i s))) = [?u]" .
  then show ?thesis
    by (simp add: run_append onboundary_def)
qed


theorem boundary_offset_witness:
  "currentWordIndex
     (run [Start 0, Engine Ev_start, Engine (Ev_boundary (js ''word'') 6)]
        (opened (js ''alpha beta gamma''))) = 6
   \<and> currentWordIndex
     (run [Start 0, Engine Ev_start, Engine (Ev_boundary (js ''word'') 6),
           Seek 12, Timeout 0, Engine Ev_start, Engine (Ev_boundary (js ''word'') 0)]
        (opened (js ''alpha beta gamma''))) = 12"
proof -
  let ?doc = "js ''alpha beta gamma''"
  let ?s0 = "opened ?doc"
  let ?s1 = "run [Start 0, Engine Ev_start, Engine (Ev_boundary (js ''word'') 6)] ?s0"
  let ?s2 = "(step (Seek 12) ?s1)\<lparr>timers := []\<rparr>"
  have a1: "sc_file (render ?s0) \<noteq> None" by code_simp
  have a2: "innerText ?s0 = Some ?doc" by code_simp
  have a3: "js_trim (substring_from ?doc 0) \<noteq> []" by code_simp
  have a4: "Ev_end \<notin> set [Ev_start]" by simp
  have "currentWordIndex
      (run (map Engine [Ev_start] @ [Engine (Ev_boundary (js ''word'') 6)])
         (startReading (render ?s0) 0 ?s0)) = 0 + 6"
    using a1 a2 a3 a4 by (rule boundary_offset)
  then have first: "currentWordIndex ?s1 = 6"
    by simp
  have b1: "sc_file (render ?s1) \<noteq> None" by code_simp
  have b2: "innerText ?s2 = Some ?doc" by code_simp
  have b3: "js_trim (substring_from ?doc 12) \<noteq> []" by code_simp
  have fire: "step (Timeout 0) (step (Seek 12) ?s1) = startReading (render ?s1) 12 ?s2"
    by code_simp
  have "currentWordIndex
      (run (map Engine [Ev_start] @ [Engine (Ev_boundary (js ''word'') 0)])
         (startReading (render ?s1) 12 ?s2)) = 12 + 0"
    using b1 b2 b3 a4 by (rule boundary_offset)
  then have "currentWordIndex
      (run [Engine Ev_start, Engine (Ev_boundary (js ''word'') 0)]
         (step (Timeout 0) (step (Seek 12) ?s1))) = 12"
    by (simp only: fire list.map append.simps add_0_right)
  then have second: "currentWordIndex
      (run ([Start 0, Engine Ev_start, Engine (Ev_boundary (js ''word'') 6)]
            @ [Seek 12, Timeout 0, Engine Ev_start, Engine (Ev_boundary (js ''word'') 0)]) ?s0) = 12"
    by (simp only: run_append run.simps)
  from first second show ?thesis by simp
qed


lemma handlers_ref [simp]:
  "utteranceRef (onstart s) = utteranceRef s"
  "utteranceRef (onend s) = utteranceRef s"
  "utteranceRef (onpause s) = utteranceRef s"
  "utteranceRef (onresume s) = utteranceRef s"
  "utteranceRef (onboundary u n c s) = utteranceRef s"
  by (simp_all add: onstart_def onend_def onpause_def onresume_def onboundary_def)

lemma dispatch_ref [simp]: "utteranceRef (dispatch u ev s) = utteranceRef s"
  by (cases ev) simp_all

lemma one_stream_dispatch [simp]: "one_stream (dispatch u ev s) = one_stream s"
  by (simp add: one_stream_def)

lemma one_stream_startReading: "one_stream s \<Longrightarrow> one_stream (startReading sc i s)"
  by (cases sc i s rule: startReading_cases) (simp_all add: one_stream_def cancel_def speak_def)

lemma one_stream_step: "one_stream s \<Longrightarrow> one_stream (step a s)"
proof (cases a)
  case (Engine ev)
  assume "one_stream s"
  then show ?thesis
    unfolding Engine
    by (cases ev; cases "queue (speechSynthesis s)") (auto simp: one_stream_def)
next
  case (Start i)
  assume "one_stream s"
  then show ?thesis
    unfolding Start by (simp add: one_stream_startReading)
next
  case (Timeout k)
  assume "one_stream s"
  then have "one_stream (s\<lparr>timers := take k (timers s) @ drop (Suc k) (timers s)\<rparr>)"
    by (simp add: one_stream_def)
  then show ?thesis
    unfolding Timeout using \<open>one_stream s\<close> by (simp add: one_stream_startReading)
qed (auto simp: one_stream_def onWordClick_def stopReading_def
       replayReading_def handleFileUpload_def handleRateChange_def handleVoiceChange_def
       pauseReading_def resumeReading_def pause_def resume_def cancel_def Let_def
       split: option.splits)

text \<open>
  Claim C2, as the code has it. After every finite sequence of commands, timer expiries
  and events, the engine's queue holds at most one utterance, and it is the one made last
  (the one in \<open>utteranceRef\<close>): every start cancels before it speaks. A word boundary
  that the engine emits for its queued utterance therefore sets \<open>currentWordIndex\<close> from
  the newest \<open>startIndex\<close>. The handlers carry no tag of their stream, so the cancel is
  the only guard against a late event.
\<close>

theorem newest_stream_only:
  assumes "one_stream s"
  shows "length (queue (speechSynthesis (run as s))) \<le> 1
         \<and> (\<forall>u\<in>set (queue (speechSynthesis (run as s))).
               utteranceRef (run as s) = Some u
               \<and> currentWordIndex (step (Engine (Ev_boundary (js ''word'') c)) (run as s))
                   = startIndex u + c)"
proof -
  from assms have inv: "one_stream (run as s)"
    by (induction as arbitrary: s) (simp_all add: one_stream_step)
  show ?thesis
  proof (cases "queue (speechSynthesis (run as s))")
    case Nil
    then show ?thesis by simp
  next
    case (Cons u us)
    with inv have us: "us = []" and ref: "utteranceRef (run as s) = Some u"
      by (auto simp: one_stream_def)
    have "currentWordIndex (step (Engine (Ev_boundary (js ''word'') c)) (run as s))
        = startIndex u + c"
      using Cons by (simp add: onboundary_def)
    with Cons us ref show ?thesis by simp
  qed
qed

theorem newest_stream_only_witness:
  "one_stream initial
   \<and> length (queue (speechSynthesis
        (run [Upload (js ''a b'') (js ''a.md'') (js ''a b''), Start 0, Engine Ev_start, Seek 2,
              ChangeRate 2, Timeout 1, Timeout 0] initial))) \<le> 1
   \<and> queue (speechSynthesis
        (run [Upload (js ''a b'') (js ''a.md'') (js ''a b''), Start 0, Engine Ev_start, Seek 2,
              ChangeRate 2, Timeout 1, Timeout 0] initial))
       = [\<lparr>u_text = js ''b'', u_voice = None, u_rate = 1, u_pitch = 1, startIndex = 2\<rparr>]
   \<and> utteranceRef
        (run [Upload (js ''a b'') (js ''a.md'') (js ''a b''), Start 0, Engine Ev_start, Seek 2,
              ChangeRate 2, Timeout 1, Timeout 0] initial)
       = Some \<lparr>u_text = js ''b'', u_voice = None, u_rate = 1, u_pitch = 1, startIndex = 2\<rparr>
   \<and> currentWordIndex
        (step (Engine (Ev_boundary (js ''word'') 0))
          (run [Upload (js ''a b'') (js ''a.md'') (js ''a b''), Start 0, Engine Ev_start, Seek 2,
                ChangeRate 2, Timeout 1, Timeout 0] initial))
       = 2"
proof -
  let ?as = "[Upload (js ''a b'') (js ''a.md'') (js ''a b''), Start 0, Engine Ev_start, Seek 2,
              ChangeRate 2, Timeout 1, Timeout 0]"
  let ?u = "\<lparr>u_text = js ''b'', u_voice = None, u_rate = 1, u_pitch = 1, startIndex = 2\<rparr>"
  have i: "one_stream initial" by code_simp
  have q: "queue (speechSynthesis (run ?as initial)) = [?u]" by code_simp
  note t = newest_stream_only[OF i, of ?as 0]
  from t have l: "length (queue (speechSynthesis (run ?as initial))) \<le> 1"
    by (rule conjunct1)
  from t have "\<forall>u\<in>set (queue (speechSynthesis (run ?as initial))).
      utteranceRef (run ?as initial) = Some u
      \<and> currentWordIndex (step (Engine (Ev_boundary (js ''word'') 0)) (run ?as initial))
          = startIndex u + 0"
    by (rule conjunct2)
  with q have "utteranceRef (run ?as initial) = Some ?u"
    and "currentWordIndex (step (Engine (Ev_boundary (js ''word'') 0)) (run ?as initial)) = 2"
    by simp_all
  with q i l show ?thesis by blast
qed

text \<open>
  The claim C2 as stated fails on its second half. In the document "alpha beta gamma",
  Start(0) makes a first utterance, and Seek(12) cancels it and starts a second one,
  whose boundary at 0 sets \<open>currentWordIndex\<close> to 12. The first utterance is no longer
  queued, but its \<open>onboundary\<close> is still the closure over \<open>startIndex = 0\<close>, and
  nothing in it tells a late event from a current one: a boundary at 11 that reaches it
  sets \<open>currentWordIndex\<close> to 11.
\<close>

theorem stale_boundary_counterexample:
  "calls (speechSynthesis
      (run [Start 0, Engine Ev_start, Engine (Ev_boundary (js ''word'') 6), Seek 12, Timeout 0,
            Engine Ev_start, Engine (Ev_boundary (js ''word'') 0)]
         (opened (js ''alpha beta gamma''))))
     = [Cancel, Cancel,
        Speak \<lparr>u_text = js ''alpha beta gamma'', u_voice = None, u_rate = 1, u_pitch = 1, startIndex = 0\<rparr>,
        Cancel, Cancel,
        Speak \<lparr>u_text = js ''amma'', u_voice = None, u_rate = 1, u_pitch = 1, startIndex = 12\<rparr>]
   \<and> queue (speechSynthesis
      (run [Start 0, Engine Ev_start, Engine (Ev_boundary (js ''word'') 6), Seek 12, Timeout 0,
            Engine Ev_start, Engine (Ev_boundary (js ''word'') 0)]
         (opened (js ''alpha beta gamma''))))
     = [\<lparr>u_text = js ''amma'', u_voice = None, u_rate = 1, u_pitch = 1, startIndex = 12\<rparr>]
   \<and> currentWordIndex
      (run [Start 0, Engine Ev_start, Engine (Ev_boundary (js ''word'') 6), Seek 12, Timeout 0,
            Engine Ev_start, Engine (Ev_boundary (js ''word'') 0)]
         (opened (js ''alpha beta gamma''))) = 12
   \<and> currentWordIndex
      (run [Start 0, Engine Ev_start, Engine (Ev_boundary (js ''word'') 6), Seek 12, Timeout 0,
            Engine Ev_start, Engine (Ev_boundary (js ''word'') 0),
            Late \<lparr>u_text = js ''alpha beta gamma'', u_voice = None, u_rate = 1, u_pitch = 1, startIndex = 0\<rparr>
              (Ev_boundary (js ''word'') 11)]
         (opened (js ''alpha beta gamma''))) = 11"
  by code_simp

text \<open>
  Claim C4, at a failing input. The document is "alpha beta gamma", the session is
  playing at rate 1 with \<open>currentWordIndex = 6\<close>, and the rate is changed to 1.5. The
  stored rate becomes 1.5 and the stream restarts from offset 6, as the claim says; but
  the timer calls the \<open>startReading\<close> of the render in which \<open>handleRateChange\<close> was
  made, whose \<open>rate\<close> is still 1, and the new utterance is spoken at rate 1. In the same
  way, with the voices A and B and A selected, the change to B stores B and restarts
  from offset 6 with voice A.
\<close>

theorem parameter_change_restarts_with_old_parameter:
  "isPlaying (run [Start 0, Engine Ev_start, Engine (Ev_boundary (js ''word'') 6)]
                (opened (js ''alpha beta gamma'')))
   \<and> currentWordIndex (run [Start 0, Engine Ev_start, Engine (Ev_boundary (js ''word'') 6)]
                (opened (js ''alpha beta gamma''))) = 6
   \<and> rate (run [Start 0, Engine Ev_start, Engine (Ev_boundary (js ''word'') 6)]
                (opened (js ''alpha beta gamma''))) = 1
   \<and> rate (run [Start 0, Engine Ev_start, Engine (Ev_boundary (js ''word'') 6),
                 ChangeRate 1.5, Timeout 0]
                (opened (js ''alpha beta gamma''))) = 1.5
   \<and> queue (speechSynthesis
       (run [Start 0, Engine Ev_start, Engine (Ev_boundary (js ''word'') 6),
             ChangeRate 1.5, Timeout 0]
          (opened (js ''alpha beta gamma''))))
     = [\<lparr>u_text = js ''beta gamma'', u_voice = None, u_rate = 1, u_pitch = 1, startIndex = 6\<rparr>]
   \<and> selectedVoice
       (run [Start 0, Engine Ev_start, Engine (Ev_boundary (js ''word'') 6),
             ChangeVoice (js ''B''), Timeout 0]
          ((opened (js ''alpha beta gamma''))
             \<lparr>voices := [\<lparr>voice_name = js ''A'', lang = js ''en''\<rparr>,
                         \<lparr>voice_name = js ''B'', lang = js ''en''\<rparr>],
              selectedVoice := Some \<lparr>voice_name = js ''A'', lang = js ''en''\<rparr>\<rparr>))
     = Some \<lparr>voice_name = js ''B'', lang = js ''en''\<rparr>
   \<and> queue (speechSynthesis
       (run [Start 0, Engine Ev_start, Engine (Ev_boundary (js ''word'') 6),
             ChangeVoice (js ''B''), Timeout 0]
          ((opened (js ''alpha beta gamma''))
             \<lparr>voices := [\<lparr>voice_name = js ''A'', lang = js ''en''\<rparr>,
                         \<lparr>voice_name = js ''B'', lang = js ''en''\<rparr>],
              selectedVoice := Some \<lparr>voice_name = js ''A'', lang = js ''en''\<rparr>\<rparr>)))
     = [\<lparr>u_text = js ''beta gamma'', u_voice = Some \<lparr>voice_name = js ''A'', lang = js ''en''\<rparr>,
         u_rate = 1, u_pitch = 1, startIndex = 6\<rparr>]"
  by code_simp


text \<open>
  Claim C6. When the text from offset \<open>i\<close> on is empty or only whitespace, as it is for
  every \<open>i\<close> at or past the end, \<open>startReading(i)\<close> leaves the state of \<open>App\<close> as it is
  but for the engine: \<open>isPlaying\<close> keeps its value, so that an idle session stays idle.
  The engine gets no \<open>speak\<close>, so that no stream is made: it gets at most the \<open>cancel\<close>
  that comes before the slice is looked at, the queue is empty or as before, and an
  engine that was idle stays idle.
\<close>

theorem start_blank_slice:
  assumes "innerText s = Some t"
    and "js_trim (substring_from t i) = [] \<or> int (length t) \<le> i"
  shows "startReading sc i s = s\<lparr>speechSynthesis := speechSynthesis (startReading sc i s)\<rparr>
       \<and> isPlaying (startReading sc i s) = isPlaying s
       \<and> (calls (speechSynthesis (startReading sc i s)) = calls (speechSynthesis s)
          \<or> calls (speechSynthesis (startReading sc i s)) = calls (speechSynthesis s) @ [Cancel])
       \<and> (queue (speechSynthesis (startReading sc i s)) = []
          \<or> queue (speechSynthesis (startReading sc i s)) = queue (speechSynthesis s))
       \<and> paused (speechSynthesis (startReading sc i s)) = paused (speechSynthesis s)
       \<and> (queue (speechSynthesis s) = [] \<and> \<not> speaking (speechSynthesis s) \<longrightarrow>
            startReading sc i s =
              s\<lparr>speechSynthesis := (speechSynthesis s)
                   \<lparr>calls := calls (speechSynthesis (startReading sc i s))\<rparr>\<rparr>)"
proof -
  from assms(2) have "js_trim (substring_from t i) = []"
    using blank_past_end by blast
  from startReading_blank_slice[OF assms(1) this, of sc]
  show ?thesis
  proof
    assume "startReading sc i s = s"
    then show ?thesis by simp
  next
    assume "startReading sc i s = s\<lparr>speechSynthesis := cancel (speechSynthesis s)\<rparr>"
    then show ?thesis by (simp add: cancel_def)
  qed
qed

theorem start_blank_slice_witness:
  "innerText (opened (js ''ab  '')) = Some (js ''ab  '')
   \<and> js_trim (substring_from (js ''ab  '') 2) = []
   \<and> int (length (js ''ab  '')) \<le> 4
   \<and> isPlaying (startReading (render (opened (js ''ab  ''))) 2 (opened (js ''ab  ''))) = False
   \<and> queue (speechSynthesis (startReading (render (opened (js ''ab  ''))) 2 (opened (js ''ab  '')))) = []
   \<and> queue (speechSynthesis (startReading (render (opened (js ''ab  ''))) 4 (opened (js ''ab  '')))) = []
   \<and> startReading (render (opened (js ''ab  ''))) 4 (opened (js ''ab  ''))
       = (opened (js ''ab  ''))\<lparr>speechSynthesis := (speechSynthesis (opened (js ''ab  '')))
            \<lparr>calls := calls (speechSynthesis
                 (startReading (render (opened (js ''ab  ''))) 4 (opened (js ''ab  ''))))\<rparr>\<rparr>"
proof -
  let ?d = "js ''ab  ''"
  let ?s = "opened ?d"
  have t: "innerText ?s = Some ?d" by code_simp
  have b: "js_trim (substring_from ?d 2) = []" by code_simp
  have l: "int (length ?d) \<le> 4" by code_simp
  have e: "queue (speechSynthesis ?s) = [] \<and> \<not> speaking (speechSynthesis ?s)" by code_simp
  have p: "isPlaying ?s = False" by code_simp
  from start_blank_slice[OF t disjI1[OF b], of "render ?s"] e p
  have "isPlaying (startReading (render ?s) 2 ?s) = False"
    and "queue (speechSynthesis (startReading (render ?s) 2 ?s)) = []"
    by simp_all
  moreover note r = start_blank_slice[OF t disjI2[OF l], of "render ?s"]
  from r e have "queue (speechSynthesis (startReading (render ?s) 4 ?s)) = []"
    by auto
  moreover from r e have "startReading (render ?s) 4 ?s
           = ?s\<lparr>speechSynthesis := (speechSynthesis ?s)
                  \<lparr>calls := calls (speechSynthesis (startReading (render ?s) 4 ?s))\<rparr>\<rparr>"
    by blast
  ultimately show ?thesis using t b l by blast
qed


text \<open>
  Claim C8. The tokens of the empty string are the empty list; a string that is not
  empty and holds no whitespace gives one token, a word, which is the whole string;
  leading whitespace is the first token and trailing whitespace the last one, both
  separators; and \<open>startReading\<close> on an empty (or blank) document changes nothing.
\<close>

theorem tokenize_boundary_inputs:
  "tokenizedContent [] = []
   \<and> (s \<noteq> [] \<and> (\<forall>c\<in>set s. \<not> is_space c) \<longrightarrow>
        tokenizedContent s = [\<lparr>tok_text = s, tok_index = 0, isWord = True\<rparr>])
   \<and> (s \<noteq> [] \<and> is_space (hd s) \<longrightarrow>
        tokenizedContent s \<noteq> []
        \<and> hd (tokenizedContent s) = \<lparr>tok_text = takeWhile is_space s, tok_index = 0, isWord = False\<rparr>)
   \<and> (s \<noteq> [] \<and> is_space (last s) \<longrightarrow>
        tokenizedContent s \<noteq> []
        \<and> last (tokenizedContent s) =
            \<lparr>tok_text = rev (takeWhile is_space (rev s)),
             tok_index = length s - length (takeWhile is_space (rev s)), isWord = False\<rparr>)
   \<and> (innerText st = Some t \<and> js_trim t = [] \<longrightarrow> startReading sc i st = st)"
  using tokenize_empty tokenize_no_space[of s] tokenize_leading[of s] tokenize_trailing[of s]
    startReading_blank_doc[of st t sc i]
  by blast

theorem tokenize_boundary_inputs_witness:
  "tokenizedContent [] = []
   \<and> tokenizedContent (js ''abc'') = [\<lparr>tok_text = js ''abc'', tok_index = 0, isWord = True\<rparr>]
   \<and> hd (tokenizedContent (js ''  ab c '')) = \<lparr>tok_text = js ''  '', tok_index = 0, isWord = False\<rparr>
   \<and> last (tokenizedContent (js ''  ab c '')) = \<lparr>tok_text = js '' '', tok_index = 6, isWord = False\<rparr>
   \<and> startReading (render (opened [])) 0 (opened []) = opened []"
proof -
  let ?w = "js ''abc''" and ?p = "js ''  ab c ''"
  have w: "?w \<noteq> [] \<and> (\<forall>c\<in>set ?w. \<not> is_space c)" by code_simp
  have h: "?p \<noteq> [] \<and> is_space (hd ?p)" by code_simp
  have l: "?p \<noteq> [] \<and> is_space (last ?p)" by code_simp
  have e: "innerText (opened []) = Some [] \<and> js_trim [] = []" by code_simp
  have lead: "takeWhile is_space ?p = js ''  ''" by code_simp
  have trail: "rev (takeWhile is_space (rev ?p)) = js '' ''"
    "length ?p - length (takeWhile is_space (rev ?p)) = 6" by code_simp+
  from tokenize_boundary_inputs[of ?w] w
  have 1: "tokenizedContent ?w = [\<lparr>tok_text = ?w, tok_index = 0, isWord = True\<rparr>]"
    by blast
  from tokenize_boundary_inputs[of ?p] h l
  have 2: "hd (tokenizedContent ?p) = \<lparr>tok_text = takeWhile is_space ?p, tok_index = 0, isWord = False\<rparr>"
    and 3: "last (tokenizedContent ?p) =
            \<lparr>tok_text = rev (takeWhile is_space (rev ?p)),
             tok_index = length ?p - length (takeWhile is_space (rev ?p)), isWord = False\<rparr>"
    by blast+
  from tokenize_boundary_inputs[of _ "opened []" "[]" "render (opened [])" 0] e
  have 4: "tokenizedContent [] = []" "startReading (render (opened [])) 0 (opened []) = opened []"
    by blast+
  from 1 2 3 4 show ?thesis
    unfolding lead trail by blast
qed

text \<open>The stream that a pending restart makes when its timer expires.\<close>

lemma restart_after_change:
  assumes "md_file s \<noteq> None" and "innerText s = Some t"
    and "js_trim (substring_from t i) \<noteq> []"
    and "timers s' = timers s @ [\<lparr>t_delay = d, t_scope = render s, t_index = i\<rparr>]"
    and "innerText s' = Some t"
  shows "queue (speechSynthesis (step (Timeout (length (timers s))) s'))
         = [\<lparr>u_text = substring_from t i, u_voice = selectedVoice s, u_rate = rate s,
             u_pitch = 1, startIndex = i\<rparr>]"
proof -
  let ?s2 = "s'\<lparr>timers := take (length (timers s)) (timers s') @ drop (Suc (length (timers s))) (timers s')\<rparr>"
  have sc: "sc_file (render s) \<noteq> None"
    using assms(1) by (simp add: render_def)
  have it: "innerText ?s2 = Some t"
    using assms(5) by simp
  have st: "step (Timeout (length (timers s))) s' = startReading (render s) i ?s2"
    using assms(4) by simp
  have "queue (speechSynthesis (startReading (render s) i ?s2))
         = [\<lparr>u_text = substring_from t i, u_voice = selectedVoice s, u_rate = rate s,
             u_pitch = 1, startIndex = i\<rparr>]"
    by (subst startReading_speaks[OF sc it assms(3)]) (simp add: speak_def cancel_def render_def)
  then show ?thesis
    unfolding st .
qed

lemma handleRateChange_playing:
  assumes "isPlaying s"
  shows "handleRateChange r s =
           s\<lparr>rate := r, speechSynthesis := cancel (speechSynthesis s),
             timers := timers s @ [\<lparr>t_delay = 50, t_scope = render s,
                                    t_index = max 0 (currentWordIndex s)\<rparr>]\<rparr>"
  using assms by (simp add: handleRateChange_def Let_def max_def)

lemma handleVoiceChange_playing:
  assumes "isPlaying s" "find (\<lambda>v. voice_name v = n) (voices s) = Some v"
  shows "handleVoiceChange n s =
           s\<lparr>selectedVoice := Some v, speechSynthesis := cancel (speechSynthesis s),
             timers := timers s @ [\<lparr>t_delay = 50, t_scope = render s,
                                    t_index = max 0 (currentWordIndex s)\<rparr>]\<rparr>"
  using assms by (simp add: handleVoiceChange_def Let_def max_def)

text \<open>
  Claim C9. When the rate or the voice is changed while playing and \<open>currentWordIndex\<close>
  is not positive (\<open>- 1\<close> before the first boundary event, or 0), the index given to the
  restart is 0, and the stream that the restart makes has \<open>startIndex = 0\<close>.
\<close>

theorem restart_offset_clamped:
  assumes "isPlaying s" and "currentWordIndex s \<le> 0"
    and "md_file s \<noteq> None" and "innerText s = Some t" and "js_trim t \<noteq> []"
  shows "map t_index (timers (handleRateChange r s)) = map t_index (timers s) @ [0]
       \<and> map startIndex (queue (speechSynthesis
            (run [ChangeRate r, Timeout (length (timers s))] s))) = [0]
       \<and> (find (\<lambda>v. voice_name v = n) (voices s) = Some v \<longrightarrow>
            map t_index (timers (handleVoiceChange n s)) = map t_index (timers s) @ [0]
            \<and> map startIndex (queue (speechSynthesis
                 (run [ChangeVoice n, Timeout (length (timers s))] s))) = [0])"
proof -
  from assms(2) have m: "max 0 (currentWordIndex s) = 0" by simp
  have nb: "js_trim (substring_from t 0) \<noteq> []"
    using assms(5) by (simp add: substring_from_def)
  note rc = handleRateChange_playing[OF assms(1), of r, unfolded m]
  have "queue (speechSynthesis (step (Timeout (length (timers s))) (handleRateChange r s)))
      = [\<lparr>u_text = substring_from t 0, u_voice = selectedVoice s, u_rate = rate s,
          u_pitch = 1, startIndex = 0\<rparr>]"
    by (rule restart_after_change[OF assms(3,4) nb]) (simp_all add: rc assms(4))
  then have r1: "map startIndex (queue (speechSynthesis
            (run [ChangeRate r, Timeout (length (timers s))] s))) = [0]"
    by simp
  have r0: "map t_index (timers (handleRateChange r s)) = map t_index (timers s) @ [0]"
    by (simp add: rc)
  have v: "map t_index (timers (handleVoiceChange n s)) = map t_index (timers s) @ [0]
            \<and> map startIndex (queue (speechSynthesis
                 (run [ChangeVoice n, Timeout (length (timers s))] s))) = [0]"
    if f: "find (\<lambda>v. voice_name v = n) (voices s) = Some v"
  proof -
    note vc = handleVoiceChange_playing[OF assms(1) f, unfolded m]
    have "queue (speechSynthesis (step (Timeout (length (timers s))) (handleVoiceChange n s)))
      = [\<lparr>u_text = substring_from t 0, u_voice = selectedVoice s, u_rate = rate s,
          u_pitch = 1, startIndex = 0\<rparr>]"
      by (rule restart_after_change[OF assms(3,4) nb]) (simp_all add: vc assms(4))
    then show ?thesis by (simp add: vc)
  qed
  from r0 r1 v show ?thesis by blast
qed


theorem restart_offset_clamped_witness:
  "isPlaying (run [Start 0, Engine Ev_start]
       ((opened (js ''hi there''))\<lparr>voices := [\<lparr>voice_name = js ''A'', lang = js ''en''\<rparr>,
                                              \<lparr>voice_name = js ''B'', lang = js ''en''\<rparr>]\<rparr>))
   \<and> currentWordIndex (run [Start 0, Engine Ev_start]
       ((opened (js ''hi there''))\<lparr>voices := [\<lparr>voice_name = js ''A'', lang = js ''en''\<rparr>,
                                              \<lparr>voice_name = js ''B'', lang = js ''en''\<rparr>]\<rparr>)) = - 1
   \<and> map startIndex (queue (speechSynthesis
        (run [ChangeRate 2, Timeout 0]
          (run [Start 0, Engine Ev_start]
            ((opened (js ''hi there''))\<lparr>voices := [\<lparr>voice_name = js ''A'', lang = js ''en''\<rparr>,
                                                   \<lparr>voice_name = js ''B'', lang = js ''en''\<rparr>]\<rparr>))))) = [0]
   \<and> map startIndex (queue (speechSynthesis
        (run [ChangeVoice (js ''B''), Timeout 0]
          (run [Start 0, Engine Ev_start]
            ((opened (js ''hi there''))\<lparr>voices := [\<lparr>voice_name = js ''A'', lang = js ''en''\<rparr>,
                                                   \<lparr>voice_name = js ''B'', lang = js ''en''\<rparr>]\<rparr>))))) = [0]"
proof -
  let ?s = "run [Start 0, Engine Ev_start]
       ((opened (js ''hi there''))\<lparr>voices := [\<lparr>voice_name = js ''A'', lang = js ''en''\<rparr>,
                                              \<lparr>voice_name = js ''B'', lang = js ''en''\<rparr>]\<rparr>)"
  have p: "isPlaying ?s" by code_simp
  have c: "currentWordIndex ?s = - 1" by code_simp
  have f: "md_file ?s \<noteq> None" by code_simp
  have t: "innerText ?s = Some (js ''hi there'')" by code_simp
  have b: "js_trim (js ''hi there'') \<noteq> []" by code_simp
  have n: "length (timers ?s) = 0" by code_simp
  have v: "find (\<lambda>v. voice_name v = js ''B'') (voices ?s) = Some \<lparr>voice_name = js ''B'', lang = js ''en''\<rparr>"
    by code_simp
  from c have c': "currentWordIndex ?s \<le> 0" by simp
  from restart_offset_clamped[OF p c' f t b, of 2 "js ''B''", unfolded n] v
  have "map startIndex (queue (speechSynthesis (run [ChangeRate 2, Timeout 0] ?s))) = [0]"
    and "map startIndex (queue (speechSynthesis (run [ChangeVoice (js ''B''), Timeout 0] ?s))) = [0]"
    by blast+
  with p c show ?thesis by blast
qed

text \<open>
  Claim C10. \<open>pauseReading\<close> and \<open>resumeReading\<close> change nothing but the paused flag
  of the engine (and the list of calls made): \<open>currentWordIndex\<close>, the queue with its
  utterance and its \<open>startIndex\<close>, the rate, the voice and the document stay as they
  are, and no \<open>cancel\<close> or \<open>speak\<close> is issued. \<open>pauseReading\<close> calls \<open>pause\<close> exactly
  when the engine is speaking and not paused, \<open>resumeReading\<close> calls \<open>resume\<close> exactly
  when the engine is paused.
\<close>

theorem pause_resume_frame:
  "pauseReading s =
     s\<lparr>speechSynthesis := (speechSynthesis s)
          \<lparr>paused := paused (speechSynthesis (pauseReading s)),
           calls := calls (speechSynthesis (pauseReading s))\<rparr>\<rparr>
   \<and> calls (speechSynthesis (pauseReading s)) =
       calls (speechSynthesis s)
         @ (if speaking (speechSynthesis s) \<and> \<not> paused (speechSynthesis s) then [PauseCall] else [])
   \<and> resumeReading s =
     s\<lparr>speechSynthesis := (speechSynthesis s)
          \<lparr>paused := paused (speechSynthesis (resumeReading s)),
           calls := calls (speechSynthesis (resumeReading s))\<rparr>\<rparr>
   \<and> calls (speechSynthesis (resumeReading s)) =
       calls (speechSynthesis s) @ (if paused (speechSynthesis s) then [ResumeCall] else [])
   \<and> currentWordIndex (pauseReading s) = currentWordIndex s
   \<and> currentWordIndex (resumeReading s) = currentWordIndex s
   \<and> queue (speechSynthesis (pauseReading s)) = queue (speechSynthesis s)
   \<and> queue (speechSynthesis (resumeReading s)) = queue (speechSynthesis s)
   \<and> rate (pauseReading s) = rate s \<and> rate (resumeReading s) = rate s
   \<and> selectedVoice (pauseReading s) = selectedVoice s
   \<and> selectedVoice (resumeReading s) = selectedVoice s
   \<and> md_file (pauseReading s) = md_file s \<and> md_file (resumeReading s) = md_file s
   \<and> innerText (pauseReading s) = innerText s \<and> innerText (resumeReading s) = innerText s
   \<and> utteranceRef (pauseReading s) = utteranceRef s
   \<and> utteranceRef (resumeReading s) = utteranceRef s"
  by (simp add: pauseReading_def resumeReading_def pause_def resume_def)

section \<open>Properties of the highlight effect\<close>

lemma marks_in_simps [simp]:
  "marks_in [] = 0"
  "marks_in (x # xs) = marks x + marks_in xs"
  "marks_in (xs @ ys) = marks_in xs + marks_in ys"
  by (simp_all add: marks_in_def)

lemma text_in_simps [simp]:
  "text_in [] = []"
  "text_in (x # xs) = textContent x @ text_in xs"
  "text_in (xs @ ys) = text_in xs @ text_in ys"
  by (simp_all add: text_in_def)

lemma marks_simps [simp]:
  "marks (Elem tag cs) = marks_in cs"
  "marks (Mark cs) = Suc (marks_in cs)"
  by (simp_all add: marks_in_def)

lemma textContent_simps [simp]:
  "textContent (Elem tag cs) = text_in cs"
  "textContent (Mark cs) = text_in cs"
  by (simp_all add: text_in_def)

declare marks.simps(2,3) [simp del] textContent.simps(2,3) [simp del]

lemma marks_in_normalize [simp]: "marks_in (normalize_nodes cs) = marks_in cs"
proof (induction cs rule: normalize_nodes.induct)
  case (2 v rest)
  then show ?case
    by (cases "normalize_nodes rest" rule: normalize_nodes.cases) auto
qed simp_all

lemma text_in_normalize [simp]: "text_in (normalize_nodes cs) = text_in cs"
proof (induction cs rule: normalize_nodes.induct)
  case (2 v rest)
  then show ?case
    by (cases "normalize_nodes rest" rule: normalize_nodes.cases) auto
qed simp_all

lemma marks_in_update:
  "k < length cs \<Longrightarrow> marks_in (cs[k := x]) + marks (cs ! k) = marks_in cs + marks x"
proof (induction cs arbitrary: k)
  case Nil
  then show ?case by simp
next
  case (Cons c cs)
  then show ?case by (cases k) auto
qed

lemma text_in_update:
  "k < length cs \<Longrightarrow> textContent x = textContent (cs ! k) \<Longrightarrow> text_in (cs[k := x]) = text_in cs"
proof (induction cs arbitrary: k)
  case Nil
  then show ?case by simp
next
  case (Cons c cs)
  then show ?case by (cases k) auto
qed

lemma text_in_remove_mark [simp]: "text_in (remove_mark p cs) = text_in cs"
proof (induction p cs rule: remove_mark.induct)
  case (1 cs)
  then show ?case by simp
next
  case (2 k cs)
  then show ?case by (simp add: text_in_update)
next
  case (3 k v va cs)
  then show ?case
    by (cases "cs ! k") (auto simp: text_in_update)
qed

lemma marks_in_remove_mark:
  "is_word_mark (node_at p cs) \<Longrightarrow> Suc (marks_in (remove_mark p cs)) = marks_in cs"
proof (induction p cs rule: remove_mark.induct)
  case (1 cs)
  then show ?case by simp
next
  case (2 k cs)
  from "2.prems" have k: "k < length cs" and m: "is_word_mark (Some (cs ! k))"
    by (auto split: if_splits)
  from m obtain w where w: "cs ! k = Mark [Text w]"
    by (cases "Some (cs ! k)" rule: is_word_mark.cases) auto
  from marks_in_update[OF k, of "Text (textContent (cs ! k))"] w
  show ?case using k by simp
next
  case (3 k v va cs)
  from "3.prems" have k: "k < length cs"
    by (auto split: if_splits)
  show ?case
  proof (cases "cs ! k")
    case (Text x)
    with "3.prems" k show ?thesis by simp
  next
    case (Elem tag ds)
    with "3.prems" k have "is_word_mark (node_at (v # va) ds)" by simp
    from "3.IH"(1)[OF k Elem this] marks_in_update[OF k, of "Elem tag (remove_mark (v # va) ds)"]
    show ?thesis using k Elem by simp
  next
    case (Mark ds)
    with "3.prems" k have "is_word_mark (node_at (v # va) ds)" by simp
    from "3.IH"(2)[OF k Mark this] marks_in_update[OF k, of "Mark (remove_mark (v # va) ds)"]
    show ?thesis using k Mark by simp
  qed
qed


lemma highlight_node_cases:
  assumes "int (charCount + length v) > idx" "int charCount \<le> idx"
  obtains (none) "highlight_node rf idx charCount v = Inr None"
  | (some) a b where "highlight_node rf idx charCount v =
        Inr (Some [Text (take a v), Mark [Text (take (b - a) (drop a v))], Text (drop b v)])"
      "a < b" "b \<le> length v" "rf v a b = None" "int charCount + int a = idx"
proof -
  define offset where "offset = nat (max 0 (idx - int charCount))"
  define m where "m = takeWhile is_word_char (substring_from v (int offset))"
  define wordLength where "wordLength = (if m = [] then 1 else length m)"
  have off: "int charCount + int offset = idx" "offset < length v"
    using assms by (auto simp: offset_def)
  have "length m \<le> length (drop offset v)"
    unfolding m_def substring_from_def nat_int by (rule length_takeWhile_le)
  with off have guard: "offset + wordLength \<le> length v"
    by (auto simp: wordLength_def)
  have pos: "0 < wordLength"
    by (simp add: wordLength_def)
  have hn: "highlight_node rf idx charCount v =
      (if offset + wordLength \<le> length v
       then (case setBoundary v offset of
               Inl e \<Rightarrow> Inl e
             | Inr a \<Rightarrow>
                 (case setBoundary v (offset + wordLength) of
                    Inl e \<Rightarrow> Inl e
                  | Inr b \<Rightarrow>
                      (case surroundContents rf v a b of
                         Inl e \<Rightarrow> Inr None
                       | Inr nodes \<Rightarrow> Inr (Some nodes))))
       else Inr None)"
    unfolding highlight_node_def Let_def offset_def wordLength_def m_def ..
  have sb: "setBoundary v offset = Inr offset"
    "setBoundary v (offset + wordLength) = Inr (offset + wordLength)"
    using guard by (simp_all add: setBoundary_def)
  show thesis
  proof (cases "rf v offset (offset + wordLength)")
    case None
    have "highlight_node rf idx charCount v =
        Inr (Some [Text (take offset v),
                   Mark [Text (take ((offset + wordLength) - offset) (drop offset v))],
                   Text (drop (offset + wordLength) v)])"
      using guard None by (simp add: hn sb surroundContents_def)
    then show thesis
      using pos guard None off(1) by (intro some[of offset "offset + wordLength"]) auto
  next
    case (Some e)
    have "highlight_node rf idx charCount v = Inr None"
      using guard Some by (simp add: hn sb surroundContents_def)
    then show thesis by (rule none)
  qed
qed

lemma node_at_Suc [simp]: "node_at (Suc j # q) (x # xs) = node_at (j # q) xs"
  by (cases q) auto

lemma node_at_0_Elem [simp]:
  "node_at (0 # j # q) (Elem tag cs # rest) = node_at (j # q) cs"
  "node_at (0 # j # q) (Mark cs # rest) = node_at (j # q) cs"
  by simp_all

text \<open>What a walk that starts inside the text read so far can do.\<close>

lemma walk_nodes_result:
  assumes "int charCount \<le> idx"
  shows "(case walk_nodes rf idx charCount k cs of
            Miss n \<Rightarrow> n = charCount + length (text_in cs) \<and> int n \<le> idx
          | Hit cs' None \<Rightarrow> cs' = cs \<and> idx < int (charCount + length (text_in cs))
          | Hit cs' (Some p) \<Rightarrow>
              text_in cs' = text_in cs \<and> marks_in cs' = Suc (marks_in cs)
              \<and> idx < int (charCount + length (text_in cs))
              \<and> (\<exists>j q. p = (k + j) # q \<and> is_word_mark (node_at (j # q) cs'))
          | Throw e \<Rightarrow> False)"
  using assms
proof (induction rf idx charCount k cs rule: walk_nodes.induct)
  case (1 rf idx charCount k)
  then show ?case by simp
next
  case (2 rf idx charCount k v rest)
  show ?case
  proof (cases "int (charCount + length v) > idx")
    case True
    from True "2.prems" show ?thesis
    proof (cases rule: highlight_node_cases[where rf = rf])
      case none
      with True show ?thesis by simp
    next
      case (some a b)
      have "take a v @ take (b - a) (drop a v) @ drop b v = v"
      proof -
        have "take (b - a) (drop a v) @ drop b v = drop a v"
          using some(2) by (metis append_take_drop_id drop_drop le_add_diff_inverse2 less_imp_le_nat)
        then show ?thesis by simp
      qed
      moreover have "\<exists>j q. [Suc k] = (k + j) # q
          \<and> is_word_mark (node_at (j # q)
               ([Text (take a v), Mark [Text (take (b - a) (drop a v))], Text (drop b v)] @ rest))"
        by (intro exI[of _ 1] exI[of _ "[]"]) simp
      ultimately show ?thesis
        using True some(1) by simp
    qed
  next
    case False
    then have le: "int (charCount + length v) \<le> idx" by simp
    from "2.IH"[OF False le] False show ?thesis
      by (auto split: walk.splits option.splits simp: add.assoc intro: exI[of _ "Suc _"])
  qed
next
  case (3 rf idx charCount k tag cs rest)
  note inner = "3.IH"(1)[OF "3.prems"]
  show ?case
  proof (cases "walk_nodes rf idx charCount 0 cs")
    case (Miss n)
    with inner have n: "n = charCount + length (text_in cs)" "int n \<le> idx" by simp_all
    from "3.IH"(2)[OF Miss n(2)] Miss n show ?thesis
      by (auto split: walk.splits option.splits simp: add.assoc intro: exI[of _ "Suc _"])
  next
    case (Hit cs' po)
    with inner show ?thesis
      by (cases po) (auto intro: exI[of _ 0])
  next
    case (Throw e)
    with inner show ?thesis by simp
  qed
next
  case (4 rf idx charCount k cs rest)
  note inner = "4.IH"(1)[OF "4.prems"]
  show ?case
  proof (cases "walk_nodes rf idx charCount 0 cs")
    case (Miss n)
    with inner have n: "n = charCount + length (text_in cs)" "int n \<le> idx" by simp_all
    from "4.IH"(2)[OF Miss n(2)] Miss n show ?thesis
      by (auto split: walk.splits option.splits simp: add.assoc intro: exI[of _ "Suc _"])
  next
    case (Hit cs' po)
    with inner show ?thesis
      by (cases po) (auto intro: exI[of _ 0])
  next
    case (Throw e)
    with inner show ?thesis by simp
  qed
qed


lemma highlight_node_refused:
  assumes "\<forall>v a b. rf v a b \<noteq> None"
  shows "highlight_node rf idx charCount v \<noteq> Inr (Some nodes)"
proof -
  have "surroundContents rf v a b \<noteq> Inr ns" for a b ns
  proof -
    from assms obtain e where "rf v a b = Some e" by blast
    then show ?thesis by (simp add: surroundContents_def)
  qed
  then show ?thesis
    by (auto simp: highlight_node_def Let_def split: sum.splits if_splits)
qed

lemma walk_refused:
  assumes "\<forall>v a b. rf v a b \<noteq> None"
  shows "walk_nodes rf idx charCount k cs \<noteq> Hit cs' (Some p)"
  using assms
proof (induction rf idx charCount k cs arbitrary: cs' p rule: walk_nodes.induct)
  case (1 rf idx charCount k)
  then show ?case by simp
next
  case (2 rf idx charCount k v rest)
  show ?case
  proof (cases "int (charCount + length v) > idx")
    case True
    with highlight_node_refused[OF "2.prems", of idx charCount v] show ?thesis
      by (auto split: sum.splits option.splits)
  next
    case False
    with "2.IH"[OF False "2.prems"] show ?thesis
      by (auto split: walk.splits)
  qed
next
  case (3 rf idx charCount k tag cs rest)
  show ?case
  proof (cases "walk_nodes rf idx charCount 0 cs")
    case (Miss n)
    with "3.IH"(2)[OF Miss "3.prems"] show ?thesis
      by (auto split: walk.splits)
  next
    case (Hit ds po)
    with "3.IH"(1)[OF "3.prems"] show ?thesis
      by (cases po) auto
  next
    case (Throw e)
    then show ?thesis by simp
  qed
next
  case (4 rf idx charCount k cs rest)
  show ?case
  proof (cases "walk_nodes rf idx charCount 0 cs")
    case (Miss n)
    with "4.IH"(2)[OF Miss "4.prems"] show ?thesis
      by (auto split: walk.splits)
  next
    case (Hit ds po)
    with "4.IH"(1)[OF "4.prems"] show ?thesis
      by (cases po) auto
  next
    case (Throw e)
    then show ?thesis by simp
  qed
qed

lemma cleanup_clears:
  assumes "highlight_ok st"
  shows "highlightRef (cleanup st) = None" "marks_on (cleanup st) = 0"
    "text_on (cleanup st) = text_on st" "highlight_ok (cleanup st)"
    "container (cleanup st) = None \<longleftrightarrow> container st = None"
proof -
  show "highlightRef (cleanup st) = None"
    by (simp add: cleanup_def split: option.splits)
  show "text_on (cleanup st) = text_on st"
    by (auto simp: cleanup_def text_on_def split: option.splits)
  show "container (cleanup st) = None \<longleftrightarrow> container st = None"
    by (simp add: cleanup_def split: option.splits)
  show m: "marks_on (cleanup st) = 0"
  proof (cases "container st")
    case None
    then show ?thesis by (simp add: cleanup_def marks_on_def split: option.splits)
  next
    case (Some cs)
    show ?thesis
    proof (cases "highlightRef st")
      case None
      with Some assms show ?thesis
        by (simp add: cleanup_def marks_on_def highlight_ok_def)
    next
      case p: (Some p)
      with Some assms have "marks_in cs = 1" "is_word_mark (node_at p cs)"
        by (simp_all add: highlight_ok_def)
      with marks_in_remove_mark[of p cs] have "marks_in (remove_mark p cs) = 0"
        by simp
      with Some p show ?thesis
        by (simp add: cleanup_def marks_on_def)
    qed
  qed
  show "highlight_ok (cleanup st)"
    using m \<open>highlightRef (cleanup st) = None\<close>
    by (simp add: highlight_ok_def marks_on_def split: option.splits)
qed

lemma apply_mark_result:
  assumes "highlightRef st = None" "marks_on st = 0" "0 \<le> idx"
  obtains st' where "apply_mark rf idx st = Inr st'" "highlight_ok st'" "text_on st' = text_on st"
    "marks_on st' \<le> 1" "highlightRef st' = None \<longleftrightarrow> marks_on st' = 0"
    "int (length (text_on st)) \<le> idx \<Longrightarrow> st' = st"
    "\<forall>v a b. rf v a b \<noteq> None \<Longrightarrow> st' = st"
proof (cases "container st")
  case None
  with assms have "apply_mark rf idx st = Inr st" "highlight_ok st"
    by (simp_all add: apply_mark_def highlight_ok_def)
  with assms show thesis by (intro that[of st]) simp_all
next
  case (Some cs)
  from assms(2) Some have m0: "marks_in cs = 0" by (simp add: marks_on_def)
  from assms(3) have "int 0 \<le> idx" by simp
  note w = walk_nodes_result[OF this, where rf = rf and k = 0 and cs = cs]
  have ok: "highlight_ok st"
    using assms(1) m0 Some by (simp add: highlight_ok_def)
  show thesis
  proof (cases "walk_nodes rf idx 0 0 cs")
    case (Miss n)
    with Some have "apply_mark rf idx st = Inr st" by (simp add: apply_mark_def)
    with assms ok show thesis by (intro that[of st]) simp_all
  next
    case (Throw e)
    with w show thesis by simp
  next
    case (Hit cs' po)
    show thesis
    proof (cases po)
      case None
      with Hit w have "cs' = cs" by simp
      with Hit None Some assms(1) have "apply_mark rf idx st = Inr st"
        by (simp add: apply_mark_def)
      with assms ok show thesis by (intro that[of st]) simp_all
    next
      case p: (Some p)
      with Hit w have t: "text_in cs' = text_in cs" and m: "marks_in cs' = Suc (marks_in cs)"
        and lt: "idx < int (length (text_in cs))"
        and "\<exists>j q. p = j # q \<and> is_word_mark (node_at (j # q) cs')"
        by simp_all
      then have wm: "is_word_mark (node_at p cs')" by auto
      let ?st' = "st\<lparr>container := Some cs', highlightRef := Some p\<rparr>"
      have r: "apply_mark rf idx st = Inr ?st'"
        using Some Hit p by (simp add: apply_mark_def)
      have never: "\<not> (\<forall>v a b. rf v a b \<noteq> None)"
        using walk_refused[where rf = rf and idx = idx and charCount = 0 and k = 0 and cs = cs and cs' = cs' and p = p] Hit p by blast
      show thesis
      proof (rule that[of ?st'])
        show "apply_mark rf idx st = Inr ?st'" by (rule r)
        show "highlight_ok ?st'"
          using m m0 wm by (simp add: highlight_ok_def)
        show "text_on ?st' = text_on st"
          using t Some by (simp add: text_on_def)
        show "marks_on ?st' \<le> 1"
          using m m0 by (simp add: marks_on_def)
        show "highlightRef ?st' = None \<longleftrightarrow> marks_on ?st' = 0"
          using m by (simp add: marks_on_def)
        show "?st' = st" if "int (length (text_on st)) \<le> idx"
          using that lt Some by (simp add: text_on_def)
        show "?st' = st" if "\<forall>v a b. rf v a b \<noteq> None"
          using that never by simp
      qed
    qed
  qed
qed


lemma highlight_effect_result:
  assumes "highlight_ok st"
  obtains st' where "highlight_effect rf idx playing st = Inr st'" "highlight_ok st'"
    "text_on st' = text_on st" "marks_on st' \<le> 1"
    "highlightRef st' = None \<longleftrightarrow> marks_on st' = 0"
    "idx < 0 \<or> \<not> playing \<or> int (length (text_on st)) \<le> idx \<or> (\<forall>v a b. rf v a b \<noteq> None)
       \<Longrightarrow> highlightRef st' = None \<and> marks_on st' = 0"
proof (cases "container st")
  case None
  with assms have "highlight_effect rf idx playing st = Inr st" "highlightRef st = None"
    "marks_on st = 0"
    by (simp_all add: highlight_effect_def highlight_ok_def marks_on_def)
  with assms show thesis by (intro that[of st]) simp_all
next
  case (Some cs)
  note c = cleanup_clears[OF assms]
  show thesis
  proof (cases "idx < 0 \<or> \<not> playing")
    case True
    with Some have "highlight_effect rf idx playing st = Inr (cleanup st)"
      by (simp add: highlight_effect_def)
    with c show thesis by (intro that[of "cleanup st"]) simp_all
  next
    case False
    with Some have e: "highlight_effect rf idx playing st = apply_mark rf idx (cleanup st)"
      by (simp add: highlight_effect_def)
    from False have "0 \<le> idx" by simp
    from apply_mark_result[OF c(1,2) this, of rf]
    obtain st' where r: "apply_mark rf idx (cleanup st) = Inr st'" "highlight_ok st'"
      "text_on st' = text_on (cleanup st)" "marks_on st' \<le> 1"
      "highlightRef st' = None \<longleftrightarrow> marks_on st' = 0"
      "int (length (text_on (cleanup st))) \<le> idx \<Longrightarrow> st' = cleanup st"
      "\<forall>v a b. rf v a b \<noteq> None \<Longrightarrow> st' = cleanup st"
      by blast
    show thesis
    proof (rule that[of st'])
      show "highlight_effect rf idx playing st = Inr st'" using e r(1) by simp
      show "highlight_ok st'" by (rule r(2))
      show "text_on st' = text_on st" using r(3) c(3) by simp
      show "marks_on st' \<le> 1" by (rule r(4))
      show "highlightRef st' = None \<longleftrightarrow> marks_on st' = 0" by (rule r(5))
      show "highlightRef st' = None \<and> marks_on st' = 0"
        if "idx < 0 \<or> \<not> playing \<or> int (length (text_on st)) \<le> idx \<or> (\<forall>v a b. rf v a b \<noteq> None)"
      proof -
        from that False have "int (length (text_on st)) \<le> idx \<or> (\<forall>v a b. rf v a b \<noteq> None)"
          by blast
        with r(6,7) c(3) have "st' = cleanup st" by auto
        with c(1,2) show ?thesis by simp
      qed
    qed
  qed
qed

lemma normalized_fixed: "normalized cs \<Longrightarrow> normalize_nodes cs = cs"
proof (induction cs rule: normalize_nodes.induct)
  case (2 v rest)
  then show ?case
    by (cases rest rule: normalize_nodes.cases) auto
qed simp_all

lemma normalize_merge:
  "normalize_nodes (Text a # Text b # rest) = normalize_nodes (Text (a @ b) # rest)"
  by (cases "normalize_nodes rest" rule: normalize_nodes.cases) auto

lemma unwrap_restores:
  assumes "normalized (Text v # rest)" "a \<le> b" "b \<le> length v"
  shows "normalize_nodes (Text (take a v) # Text (take (b - a) (drop a v)) # Text (drop b v) # rest)
         = Text v # rest"
proof -
  have "take a v @ take (b - a) (drop a v) @ drop b v = v"
  proof -
    have "take (b - a) (drop a v) @ drop b v = drop a v"
      using assms(2) by (metis append_take_drop_id drop_drop le_add_diff_inverse2)
    then show ?thesis by simp
  qed
  then have "normalize_nodes (Text (take a v) # Text (take (b - a) (drop a v)) # Text (drop b v) # rest)
      = normalize_nodes (Text v # rest)"
    by (simp only: normalize_merge append_assoc)
  with normalized_fixed[OF assms(1)] show ?thesis by simp
qed

lemma normalized_tail: "normalized (x # xs) \<Longrightarrow> normalized xs"
  by (cases x) simp_all

lemma normalize_Cons_fixed:
  assumes "normalized (x # xs)" "normalize_nodes ys = xs"
  shows "normalize_nodes (x # ys) = x # xs"
proof (cases x)
  case (Text v)
  with assms show ?thesis
    by (cases xs rule: normalize_nodes.cases) auto
next
  case (Elem tag cs)
  with assms show ?thesis by (simp add: normalized_fixed)
next
  case (Mark cs)
  with assms show ?thesis by (simp add: normalized_fixed)
qed

lemma remove_mark_Suc:
  "remove_mark (Suc j # q) (x # xs) =
     (if q = [] then (if j < length xs then normalize_nodes (x # xs[j := Text (textContent (xs ! j))]) else x # xs)
      else x # remove_mark (j # q) xs)"
proof (cases q)
  case Nil
  then show ?thesis by simp
next
  case (Cons a q')
  then show ?thesis
    by (cases "xs ! j") auto
qed

lemma walk_then_remove:
  assumes "walk_nodes rf idx charCount k cs = Hit cs' (Some p)" "normalized cs" "int charCount \<le> idx"
  shows "\<exists>j q. p = (k + j) # q \<and> remove_mark (j # q) cs' = cs
           \<and> (q = [] \<longrightarrow> j < length cs' \<and> normalize_nodes (cs'[j := Text (textContent (cs' ! j))]) = cs)"
  using assms
proof (induction rf idx charCount k cs arbitrary: cs' p rule: walk_nodes.induct)
  case (1 rf idx charCount k)
  then show ?case by simp
next
  case (2 rf idx charCount k v rest)
  show ?case
  proof (cases "int (charCount + length v) > idx")
    case True
    from True "2.prems"(3) show ?thesis
    proof (cases rule: highlight_node_cases[where rf = rf])
      case none
      with True "2.prems"(1) show ?thesis by simp
    next
      case (some a b)
      with True "2.prems"(1) have cs': "cs' = [Text (take a v), Mark [Text (take (b - a) (drop a v))], Text (drop b v)] @ rest"
        and p: "p = [Suc k]" by simp_all
      from some(2) have ab: "a \<le> b" by simp
      have "normalize_nodes (cs'[1 := Text (textContent (cs' ! 1))]) = Text v # rest"
        unfolding cs' using unwrap_restores[OF "2.prems"(2) ab some(3)] by simp
      then show ?thesis
        using p cs' by (intro exI[of _ 1] exI[of _ "[]"]) simp
    qed
  next
    case False
    then have le: "int (charCount + length v) \<le> idx" by simp
    from "2.prems"(1) False obtain rest' where
      w: "walk_nodes rf idx (charCount + length v) (Suc k) rest = Hit rest' (Some p)"
      and cs': "cs' = Text v # rest'"
      by (auto split: walk.splits)
    from "2.IH"[OF False w normalized_tail[OF "2.prems"(2)] le]
    obtain j q where jq: "p = (Suc k + j) # q" "remove_mark (j # q) rest' = rest"
      "q = [] \<longrightarrow> j < length rest' \<and> normalize_nodes (rest'[j := Text (textContent (rest' ! j))]) = rest"
      by blast
    have "remove_mark (Suc j # q) cs' = Text v # rest
        \<and> (q = [] \<longrightarrow> Suc j < length cs'
              \<and> normalize_nodes (cs'[Suc j := Text (textContent (cs' ! Suc j))]) = Text v # rest)"
      unfolding cs' remove_mark_Suc
      using jq(2,3) normalize_Cons_fixed[OF "2.prems"(2)] by auto
    with jq(1) show ?thesis
      by (intro exI[of _ "Suc j"] exI[of _ q]) simp
  qed
next
  case (3 rf idx charCount k tag cs rest)
  from "3.prems"(2) have ncs: "normalized cs" and nrest: "normalized rest"
    by simp_all
  show ?case
  proof (cases "walk_nodes rf idx charCount 0 cs")
    case (Miss n)
    from walk_nodes_result[OF "3.prems"(3), where rf = rf and k = 0 and cs = cs] Miss
    have le: "int n \<le> idx" by simp
    from "3.prems"(1) Miss obtain rest' where
      w: "walk_nodes rf idx n (Suc k) rest = Hit rest' (Some p)"
      and cs': "cs' = Elem tag cs # rest'"
      by (auto split: walk.splits)
    from "3.IH"(2)[OF Miss w nrest le]
    obtain j q where jq: "p = (Suc k + j) # q" "remove_mark (j # q) rest' = rest"
      "q = [] \<longrightarrow> j < length rest' \<and> normalize_nodes (rest'[j := Text (textContent (rest' ! j))]) = rest"
      by blast
    have "remove_mark (Suc j # q) cs' = Elem tag cs # rest
        \<and> (q = [] \<longrightarrow> Suc j < length cs'
              \<and> normalize_nodes (cs'[Suc j := Text (textContent (cs' ! Suc j))]) = Elem tag cs # rest)"
      unfolding cs' remove_mark_Suc
      using jq(2,3) normalize_Cons_fixed[OF "3.prems"(2)] by auto
    with jq(1) show ?thesis
      by (intro exI[of _ "Suc j"] exI[of _ q]) simp
  next
    case (Hit ds po)
    with "3.prems"(1) obtain p0 where po: "po = Some p0" and p: "p = k # p0"
      and cs': "cs' = Elem tag ds # rest"
      by (cases po) auto
    from "3.IH"(1)[OF Hit[unfolded po] ncs "3.prems"(3)]
    obtain j q where jq: "p0 = j # q" "remove_mark (j # q) ds = cs"
      by auto
    have "remove_mark (0 # j # q) cs' = Elem tag cs # rest"
      unfolding cs' using jq(2) by simp
    with p jq(1) show ?thesis
      by (intro exI[of _ 0] exI[of _ "j # q"]) simp
  next
    case (Throw e)
    with "3.prems"(1) show ?thesis by simp
  qed
next
  case (4 rf idx charCount k cs rest)
  from "4.prems"(2) have ncs: "normalized cs" and nrest: "normalized rest"
    by simp_all
  show ?case
  proof (cases "walk_nodes rf idx charCount 0 cs")
    case (Miss n)
    from walk_nodes_result[OF "4.prems"(3), where rf = rf and k = 0 and cs = cs] Miss
    have le: "int n \<le> idx" by simp
    from "4.prems"(1) Miss obtain rest' where
      w: "walk_nodes rf idx n (Suc k) rest = Hit rest' (Some p)"
      and cs': "cs' = Mark cs # rest'"
      by (auto split: walk.splits)
    from "4.IH"(2)[OF Miss w nrest le]
    obtain j q where jq: "p = (Suc k + j) # q" "remove_mark (j # q) rest' = rest"
      "q = [] \<longrightarrow> j < length rest' \<and> normalize_nodes (rest'[j := Text (textContent (rest' ! j))]) = rest"
      by blast
    have "remove_mark (Suc j # q) cs' = Mark cs # rest
        \<and> (q = [] \<longrightarrow> Suc j < length cs'
              \<and> normalize_nodes (cs'[Suc j := Text (textContent (cs' ! Suc j))]) = Mark cs # rest)"
      unfolding cs' remove_mark_Suc
      using jq(2,3) normalize_Cons_fixed[OF "4.prems"(2)] by auto
    with jq(1) show ?thesis
      by (intro exI[of _ "Suc j"] exI[of _ q]) simp
  next
    case (Hit ds po)
    with "4.prems"(1) obtain p0 where po: "po = Some p0" and p: "p = k # p0"
      and cs': "cs' = Mark ds # rest"
      by (cases po) auto
    from "4.IH"(1)[OF Hit[unfolded po] ncs "4.prems"(3)]
    obtain j q where jq: "p0 = j # q" "remove_mark (j # q) ds = cs"
      by auto
    have "remove_mark (0 # j # q) cs' = Mark cs # rest"
      unfolding cs' using jq(2) by simp
    with p jq(1) show ?thesis
      by (intro exI[of _ 0] exI[of _ "j # q"]) simp
  next
    case (Throw e)
    with "4.prems"(1) show ?thesis by simp
  qed
qed

lemma unmark_restores:
  assumes "normalized_on st" "highlightRef st = None" "0 \<le> idx"
  obtains st' where "apply_mark rf idx st = Inr st'" "cleanup st' = st"
proof (cases "container st")
  case None
  with assms(2) have "apply_mark rf idx st = Inr st" "cleanup st = st"
    by (simp_all add: apply_mark_def cleanup_def)
  then show thesis by (rule that)
next
  case (Some cs)
  with assms(1) have n: "normalized cs" by (simp add: normalized_on_def)
  from assms(3) have z: "int 0 \<le> idx" by simp
  note w = walk_nodes_result[OF z, where rf = rf and k = 0 and cs = cs]
  have same: "cleanup st = st"
    using assms(2) by (simp add: cleanup_def)
  show thesis
  proof (cases "walk_nodes rf idx 0 0 cs")
    case (Miss m)
    with Some have "apply_mark rf idx st = Inr st" by (simp add: apply_mark_def)
    then show thesis using same by (rule that)
  next
    case (Throw e)
    with w show thesis by simp
  next
    case (Hit cs' po)
    show thesis
    proof (cases po)
      case None
      with Hit w have "cs' = cs" by simp
      with Hit None Some assms(2) have "apply_mark rf idx st = Inr st"
        by (simp add: apply_mark_def)
      then show thesis using same by (rule that)
    next
      case p: (Some p)
      from walk_then_remove[OF Hit[unfolded p] n z]
      have "remove_mark p cs' = cs" by auto
      then have "cleanup (st\<lparr>container := Some cs', highlightRef := Some p\<rparr>) = st"
        using Some assms(2) by (simp add: cleanup_def)
      moreover have "apply_mark rf idx st = Inr (st\<lparr>container := Some cs', highlightRef := Some p\<rparr>)"
        using Some Hit p by (simp add: apply_mark_def)
      ultimately show thesis by (intro that[of "st\<lparr>container := Some cs', highlightRef := Some p\<rparr>"])
    qed
  qed
qed

text \<open>
  Claim C5. From a surface on which \<open>highlightRef\<close> and the marks agree (as on a fresh
  one, with no mark and no reference), after any number of runs of the highlight effect,
  with whatever props, at most one mark is on the surface and its text is the original
  one. Every run starts with the cleanup, after which no mark is left and the text is as
  before; the new mark is made on the cleaned surface. On a surface on which
  \<open>normalize()\<close> has nothing to do, the cleanup that follows a mark gives back the very
  nodes that were there before the mark.
\<close>

theorem highlight_exclusive:
  assumes "highlight_ok st"
  shows "(\<exists>st'. highlight_effects rf props st = Inr st'
            \<and> marks_on st' \<le> 1 \<and> highlight_ok st' \<and> text_on st' = text_on st)
       \<and> marks_on (cleanup st) = 0 \<and> text_on (cleanup st) = text_on st
       \<and> (container st \<noteq> None \<longrightarrow>
            highlight_effect rf idx playing st =
              (if idx < 0 \<or> \<not> playing then Inr (cleanup st) else apply_mark rf idx (cleanup st)))
       \<and> (normalized_on st \<and> highlightRef st = None \<and> 0 \<le> idx \<longrightarrow>
            (\<exists>st'. apply_mark rf idx st = Inr st' \<and> cleanup st' = st))"
proof -
  have "\<exists>st'. highlight_effects rf props st = Inr st'
            \<and> marks_on st' \<le> 1 \<and> highlight_ok st' \<and> text_on st' = text_on st"
    using assms
  proof (induction props arbitrary: st)
    case Nil
    then have "marks_on st \<le> 1"
      by (auto simp: highlight_ok_def marks_on_def split: option.splits)
    with Nil show ?case by simp
  next
    case (Cons pr props)
    obtain idx playing where pr: "pr = (idx, playing)" by (cases pr)
    from Cons.prems obtain st1 where s1: "highlight_effect rf idx playing st = Inr st1"
      "highlight_ok st1" "text_on st1 = text_on st"
      by (rule highlight_effect_result)
    from Cons.IH[OF s1(2)] s1(1,3) pr show ?case by auto
  qed
  moreover have "container st \<noteq> None \<longrightarrow>
            highlight_effect rf idx playing st =
              (if idx < 0 \<or> \<not> playing then Inr (cleanup st) else apply_mark rf idx (cleanup st))"
    by (auto simp: highlight_effect_def)
  moreover have "normalized_on st \<and> highlightRef st = None \<and> 0 \<le> idx \<longrightarrow>
            (\<exists>st'. apply_mark rf idx st = Inr st' \<and> cleanup st' = st)"
    using unmark_restores[of st idx rf] by metis
  ultimately show ?thesis
    using cleanup_clears(2,3)[OF assms] by blast
qed

theorem highlight_exclusive_witness:
  "highlight_ok \<lparr>container = Some [Elem ''p'' [Text (js ''alpha beta'')], Elem ''p'' [Text (js ''gamma'')]],
                  highlightRef = None\<rparr>
   \<and> highlight_effects (\<lambda>v a b. None) [(6, True), (11, True)]
        \<lparr>container = Some [Elem ''p'' [Text (js ''alpha beta'')], Elem ''p'' [Text (js ''gamma'')]],
         highlightRef = None\<rparr>
       = Inr \<lparr>container = Some [Elem ''p'' [Text (js ''alpha beta'')],
                                Elem ''p'' [Text (js ''g''), Mark [Text (js ''amma'')], Text []]],
              highlightRef = Some [1, 1]\<rparr>
   \<and> marks_on \<lparr>container = Some [Elem ''p'' [Text (js ''alpha beta'')],
                                Elem ''p'' [Text (js ''g''), Mark [Text (js ''amma'')], Text []]],
                highlightRef = Some [1, 1]\<rparr> \<le> 1
   \<and> text_on \<lparr>container = Some [Elem ''p'' [Text (js ''alpha beta'')],
                                Elem ''p'' [Text (js ''g''), Mark [Text (js ''amma'')], Text []]],
                highlightRef = Some [1, 1]\<rparr>
       = text_on \<lparr>container = Some [Elem ''p'' [Text (js ''alpha beta'')], Elem ''p'' [Text (js ''gamma'')]],
                  highlightRef = None\<rparr>
   \<and> apply_mark (\<lambda>v a b. None) 6
        \<lparr>container = Some [Elem ''p'' [Text (js ''alpha beta'')], Elem ''p'' [Text (js ''gamma'')]],
         highlightRef = None\<rparr>
       = Inr \<lparr>container = Some [Elem ''p'' [Text (js ''alpha ''), Mark [Text (js ''beta'')], Text []],
                                Elem ''p'' [Text (js ''gamma'')]],
              highlightRef = Some [0, 1]\<rparr>
   \<and> cleanup \<lparr>container = Some [Elem ''p'' [Text (js ''alpha ''), Mark [Text (js ''beta'')], Text []],
                                Elem ''p'' [Text (js ''gamma'')]],
               highlightRef = Some [0, 1]\<rparr>
       = \<lparr>container = Some [Elem ''p'' [Text (js ''alpha beta'')], Elem ''p'' [Text (js ''gamma'')]],
          highlightRef = None\<rparr>"
proof -
  let ?st = "\<lparr>container = Some [Elem ''p'' [Text (js ''alpha beta'')], Elem ''p'' [Text (js ''gamma'')]],
              highlightRef = None\<rparr>"
  let ?st' = "\<lparr>container = Some [Elem ''p'' [Text (js ''alpha beta'')],
                                Elem ''p'' [Text (js ''g''), Mark [Text (js ''amma'')], Text []]],
               highlightRef = Some [1, 1]\<rparr>"
  have ok: "highlight_ok ?st" by code_simp
  have ev: "highlight_effects (\<lambda>v a b. None) [(6, True), (11, True)] ?st = Inr ?st'"
    by code_simp
  from highlight_exclusive[OF ok, of "\<lambda>v a b. None" "[(6, True), (11, True)]"]
  obtain st' where "highlight_effects (\<lambda>v a b. None) [(6, True), (11, True)] ?st = Inr st'"
    "marks_on st' \<le> 1" "text_on st' = text_on ?st"
    by blast
  with ev have m: "marks_on ?st' \<le> 1" "text_on ?st' = text_on ?st"
    by simp_all
  let ?st1 = "\<lparr>container = Some [Elem ''p'' [Text (js ''alpha ''), Mark [Text (js ''beta'')], Text []],
                                Elem ''p'' [Text (js ''gamma'')]],
               highlightRef = Some [0, 1]\<rparr>"
  have n: "normalized_on ?st \<and> highlightRef ?st = None \<and> (0::int) \<le> 6" by code_simp
  have ap: "apply_mark (\<lambda>v a b. None) 6 ?st = Inr ?st1" by code_simp
  from highlight_exclusive[OF ok, where rf = "\<lambda>v a b. None" and props = "[]" and idx = 6] n
  obtain st1 where "apply_mark (\<lambda>v a b. None) 6 ?st = Inr st1" "cleanup st1 = ?st"
    by blast
  with ap have "cleanup ?st1 = ?st" by simp
  with ok ev m ap show ?thesis by blast
qed

text \<open>The walk stops where \<open>find_target\<close> says, and does what the browser lets it.\<close>

lemma highlight_node_exact:
  assumes "int (charCount + length v) > idx" "int charCount \<le> idx"
  obtains a b where "word_range idx charCount v = (a, b)" "a < b" "b \<le> length v"
    "highlight_node rf idx charCount v =
       (case rf v a b of
          None \<Rightarrow> Inr (Some [Text (take a v), Mark [Text (take (b - a) (drop a v))], Text (drop b v)])
        | Some e \<Rightarrow> Inr None)"
proof -
  define offset where "offset = nat (max 0 (idx - int charCount))"
  define m where "m = takeWhile is_word_char (substring_from v (int offset))"
  define wordLength where "wordLength = (if m = [] then 1 else length m)"
  have off: "offset < length v"
    using assms by (auto simp: offset_def)
  have "length m \<le> length (drop offset v)"
    unfolding m_def substring_from_def nat_int by (rule length_takeWhile_le)
  with off have guard: "offset + wordLength \<le> length v"
    by (auto simp: wordLength_def)
  have pos: "0 < wordLength"
    by (simp add: wordLength_def)
  have wr: "word_range idx charCount v = (offset, offset + wordLength)"
    unfolding word_range_def Let_def offset_def wordLength_def m_def ..
  have hn: "highlight_node rf idx charCount v =
      (if offset + wordLength \<le> length v
       then (case setBoundary v offset of
               Inl e \<Rightarrow> Inl e
             | Inr a \<Rightarrow>
                 (case setBoundary v (offset + wordLength) of
                    Inl e \<Rightarrow> Inl e
                  | Inr b \<Rightarrow>
                      (case surroundContents rf v a b of
                         Inl e \<Rightarrow> Inr None
                       | Inr nodes \<Rightarrow> Inr (Some nodes))))
       else Inr None)"
    unfolding highlight_node_def Let_def offset_def wordLength_def m_def ..
  have sb: "setBoundary v offset = Inr offset"
    "setBoundary v (offset + wordLength) = Inr (offset + wordLength)"
    using guard by (simp_all add: setBoundary_def)
  have "highlight_node rf idx charCount v =
       (case rf v offset (offset + wordLength) of
          None \<Rightarrow> Inr (Some [Text (take offset v),
                              Mark [Text (take ((offset + wordLength) - offset) (drop offset v))],
                              Text (drop (offset + wordLength) v)])
        | Some e \<Rightarrow> Inr None)"
    using guard by (simp add: hn sb surroundContents_def split: option.splits)
  with wr pos guard show thesis
    by (intro that[of offset "offset + wordLength"]) simp_all
qed

lemma walk_by_target:
  assumes "int charCount \<le> idx"
  shows "(case find_target idx charCount cs of
            No_node n \<Rightarrow> walk_nodes rf idx charCount k cs = Miss n
          | No_range \<Rightarrow> walk_nodes rf idx charCount k cs = Hit cs None
          | Wrap v a b \<Rightarrow>
              (case rf v a b of
                 Some e \<Rightarrow> walk_nodes rf idx charCount k cs = Hit cs None
               | None \<Rightarrow> (\<exists>cs' p. walk_nodes rf idx charCount k cs = Hit cs' (Some p))))"
  using assms
proof (induction rf idx charCount k cs rule: walk_nodes.induct)
  case (1 rf idx charCount k)
  then show ?case by simp
next
  case (2 rf idx charCount k v rest)
  show ?case
  proof (cases "int (charCount + length v) > idx")
    case True
    from True "2.prems" obtain a b where r: "word_range idx charCount v = (a, b)" "b \<le> length v"
      "highlight_node rf idx charCount v =
         (case rf v a b of
            None \<Rightarrow> Inr (Some [Text (take a v), Mark [Text (take (b - a) (drop a v))], Text (drop b v)])
          | Some e \<Rightarrow> Inr None)"
      by (rule highlight_node_exact[where rf = rf])
    with True show ?thesis
      by (cases "rf v a b") simp_all
  next
    case False
    then have le: "int (charCount + length v) \<le> idx" by simp
    from "2.IH"[OF False le] False show ?thesis
      by (auto split: target.splits option.splits)
  qed
next
  case (3 rf idx charCount k tag cs rest)
  note inner = "3.IH"(1)[OF "3.prems"]
  show ?case
  proof (cases "find_target idx charCount cs")
    case (No_node n)
    with inner have m: "walk_nodes rf idx charCount 0 cs = Miss n" by simp
    from walk_nodes_result[OF "3.prems", where rf = rf and k = 0 and cs = cs] m
    have le: "int n \<le> idx" by simp
    from "3.IH"(2)[OF m le] No_node m show ?thesis
      by (auto split: target.splits option.splits)
  next
    case No_range
    with inner show ?thesis by simp
  next
    case (Wrap v a b)
    with inner show ?thesis
      by (cases "rf v a b") auto
  qed
next
  case (4 rf idx charCount k cs rest)
  note inner = "4.IH"(1)[OF "4.prems"]
  show ?case
  proof (cases "find_target idx charCount cs")
    case (No_node n)
    with inner have m: "walk_nodes rf idx charCount 0 cs = Miss n" by simp
    from walk_nodes_result[OF "4.prems", where rf = rf and k = 0 and cs = cs] m
    have le: "int n \<le> idx" by simp
    from "4.IH"(2)[OF m le] No_node m show ?thesis
      by (auto split: target.splits option.splits)
  next
    case No_range
    with inner show ?thesis by simp
  next
    case (Wrap v a b)
    with inner show ?thesis
      by (cases "rf v a b") auto
  qed
qed


lemma apply_mark_by_target:
  assumes "highlightRef st = None" "marks_on st = 0" "0 \<le> idx"
  shows "(case attempted idx st of
            Wrap v a b \<Rightarrow>
              (case rf v a b of
                 Some e \<Rightarrow> apply_mark rf idx st = Inr st
               | None \<Rightarrow> (\<exists>st'. apply_mark rf idx st = Inr st'
                             \<and> highlightRef st' \<noteq> None \<and> marks_on st' = 1))
          | No_range \<Rightarrow> apply_mark rf idx st = Inr st
          | No_node n \<Rightarrow> apply_mark rf idx st = Inr st)"
proof (cases "container st")
  case None
  then show ?thesis by (simp add: attempted_def apply_mark_def)
next
  case (Some cs)
  from assms(3) have z: "int 0 \<le> idx" by simp
  note t = walk_by_target[OF z, where rf = rf and k = 0 and cs = cs]
  note w = walk_nodes_result[OF z, where rf = rf and k = 0 and cs = cs]
  from assms(2) Some have m0: "marks_in cs = 0" by (simp add: marks_on_def)
  have same: "st\<lparr>container := Some cs, highlightRef := None\<rparr> = st"
    using Some assms(1) by simp
  show ?thesis
  proof (cases "find_target idx 0 cs")
    case (No_node n)
    with t Some show ?thesis by (simp add: attempted_def apply_mark_def)
  next
    case No_range
    with t Some same show ?thesis by (simp add: attempted_def apply_mark_def)
  next
    case (Wrap v a b)
    show ?thesis
    proof (cases "rf v a b")
      case r: (Some e)
      with t Wrap Some same show ?thesis by (simp add: attempted_def apply_mark_def)
    next
      case None
      with t Wrap obtain cs' p where h: "walk_nodes rf idx 0 0 cs = Hit cs' (Some p)"
        by auto
      with w m0 have "marks_in cs' = 1" by simp
      with h Some have "apply_mark rf idx st = Inr (st\<lparr>container := Some cs', highlightRef := Some p\<rparr>)"
        "marks_on (st\<lparr>container := Some cs', highlightRef := Some p\<rparr>) = 1"
        by (simp_all add: apply_mark_def marks_on_def)
      with Wrap None Some show ?thesis by (simp add: attempted_def)
    qed
  qed
qed

lemma effect_without_container:
  assumes "highlight_ok st" "container st = None"
  shows "highlight_effect rf idx playing st = Inr st \<and> cleanup st = st
         \<and> highlightRef st = None \<and> marks_on st = 0 \<and> attempted idx st = No_node 0"
  using assms
  by (simp add: highlight_effect_def cleanup_def attempted_def highlight_ok_def marks_on_def)

lemma effect_idle:
  assumes "highlight_ok st" "container st = Some cs" "idx < 0 \<or> \<not> playing"
  shows "highlight_effect rf idx playing st = Inr (cleanup st)"
  using assms by (simp add: highlight_effect_def)

lemma wrap_refused:
  assumes "highlightRef st = None" "marks_on st = 0" "0 \<le> idx"
    "attempted idx st = Wrap v a b" "rf v a b = Some e"
  shows "apply_mark rf idx st = Inr st"
  using apply_mark_by_target[OF assms(1-3), of rf] assms(4,5) by simp

lemma wrap_accepted:
  assumes "highlightRef st = None" "marks_on st = 0" "0 \<le> idx"
    "attempted idx st = Wrap v a b" "rf v a b = None"
  shows "\<exists>st'. apply_mark rf idx st = Inr st' \<and> highlightRef st' \<noteq> None \<and> marks_on st' = 1"
  using apply_mark_by_target[OF assms(1-3), of rf] assms(4,5) by simp

lemma effect_run:
  assumes "highlight_ok st" "container st = Some cs" "0 \<le> idx" "playing"
  obtains st' where "highlight_effect rf idx playing st = Inr st'" "text_on st' = text_on st"
    "int (length (text_on st)) \<le> idx \<Longrightarrow> st' = cleanup st"
    "\<forall>v a b. rf v a b \<noteq> None \<Longrightarrow> st' = cleanup st"
    "\<And>v a b. attempted idx (cleanup st) = Wrap v a b \<Longrightarrow> rf v a b \<noteq> None \<Longrightarrow> st' = cleanup st"
    "\<And>v a b. attempted idx (cleanup st) = Wrap v a b \<Longrightarrow> rf v a b = None
       \<Longrightarrow> highlightRef st' \<noteq> None \<and> marks_on st' = 1"
proof -
  note c = cleanup_clears[OF assms(1)]
  from assms have e: "highlight_effect rf idx playing st = apply_mark rf idx (cleanup st)"
    by (simp add: highlight_effect_def)
  show thesis
  proof (rule apply_mark_result[OF c(1,2) assms(3), where rf = rf])
    fix st'
    assume r: "apply_mark rf idx (cleanup st) = Inr st'"
      and txt_eq: "text_on st' = text_on (cleanup st)"
      and past: "int (length (text_on (cleanup st))) \<le> idx \<Longrightarrow> st' = cleanup st"
      and all: "\<forall>v a b. rf v a b \<noteq> None \<Longrightarrow> st' = cleanup st"
    have tgt: "st' = cleanup st" if "attempted idx (cleanup st) = Wrap v a b" "rf v a b \<noteq> None"
      for v a b
    proof -
      from that(2) obtain e where "rf v a b = Some e" by (cases "rf v a b") simp_all
      with that(1) have "apply_mark rf idx (cleanup st) = Inr (cleanup st)"
        using c(1,2) assms(3) by (intro wrap_refused)
      with r show ?thesis by simp
    qed
    have made: "highlightRef st' \<noteq> None \<and> marks_on st' = 1"
      if "attempted idx (cleanup st) = Wrap v a b" "rf v a b = None" for v a b
    proof -
      from c(1,2) assms(3) that
      have "\<exists>st2. apply_mark rf idx (cleanup st) = Inr st2 \<and> highlightRef st2 \<noteq> None \<and> marks_on st2 = 1"
        by (rule wrap_accepted)
      with r show ?thesis by simp
    qed
    show thesis
    proof (rule that[of st'])
      show "highlight_effect rf idx playing st = Inr st'" using e r by simp
      show "text_on st' = text_on st" using txt_eq c(3) by simp
      show "st' = cleanup st" if "int (length (text_on st)) \<le> idx"
        using that past c(3) by simp
      show "st' = cleanup st" if "\<forall>v a b. rf v a b \<noteq> None"
        using that by (rule all)
      show "st' = cleanup st" if "attempted idx (cleanup st) = Wrap v a b" "rf v a b \<noteq> None" for v a b
        using that by (rule tgt)
      show "highlightRef st' \<noteq> None \<and> marks_on st' = 1"
        if "attempted idx (cleanup st) = Wrap v a b" "rf v a b = None" for v a b
        using that by (rule made)
    qed
  qed
qed

text \<open>
  Claim C7. A run of the highlight effect never ends in an exception. When the index
  cannot be mapped to a text node (it is negative, or at or past the end of the text), or
  when \<open>surroundContents\<close> throws for the range that the run asks for, whatever the
  browser would do with other ranges, the run ends in the state that the cleanup left: no
  mark, no reference, the text as it was. (When the run asks for a range and the browser
  takes it, there is one mark and the reference to it: the refusal is what makes the
  difference.) The effect has no access to the engine or to the state of \<open>App\<close>: its
  whole state is the \<open>viewer\<close>.
\<close>

theorem highlight_failure_silent:
  assumes "highlight_ok st"
  shows "\<exists>st'. highlight_effect rf idx playing st = Inr st' \<and> text_on st' = text_on st
           \<and> (idx < 0 \<or> int (length (text_on st)) \<le> idx \<or> (\<forall>v a b. rf v a b \<noteq> None)
                \<or> (\<exists>v a b. attempted idx (cleanup st) = Wrap v a b \<and> rf v a b \<noteq> None)
                \<longrightarrow> st' = cleanup st \<and> highlightRef st' = None \<and> marks_on st' = 0)
           \<and> (0 \<le> idx \<and> playing
                \<and> (\<exists>v a b. attempted idx (cleanup st) = Wrap v a b \<and> rf v a b = None)
                \<longrightarrow> highlightRef st' \<noteq> None \<and> marks_on st' = 1)"
proof -
  note c = cleanup_clears[OF assms]
  let ?fail = "idx < 0 \<or> int (length (text_on st)) \<le> idx \<or> (\<forall>v a b. rf v a b \<noteq> None)
                \<or> (\<exists>v a b. attempted idx (cleanup st) = Wrap v a b \<and> rf v a b \<noteq> None)"
  let ?made = "0 \<le> idx \<and> playing
                \<and> (\<exists>v a b. attempted idx (cleanup st) = Wrap v a b \<and> rf v a b = None)"
  have goal: ?thesis
    if r: "highlight_effect rf idx playing st = Inr st'" "text_on st' = text_on st"
      and f: "?fail \<Longrightarrow> st' = cleanup st"
      and m: "?made \<Longrightarrow> highlightRef st' \<noteq> None \<and> marks_on st' = 1"
    for st'
  proof (intro exI[of _ st'] conjI impI)
    show "highlight_effect rf idx playing st = Inr st'" by (rule r(1))
    show "text_on st' = text_on st" by (rule r(2))
    show "st' = cleanup st" if ?fail using that by (rule f)
    show "highlightRef st' = None" if ?fail using f[OF that] c(1) by simp
    show "marks_on st' = 0" if ?fail using f[OF that] c(2) by simp
    show "highlightRef st' \<noteq> None" if ?made using m[OF that] by (rule conjunct1)
    show "marks_on st' = 1" if ?made using m[OF that] by (rule conjunct2)
  qed
  show ?thesis
  proof (cases "container st")
    case None
    note n = effect_without_container[OF assms None, of rf idx playing]
    show ?thesis
    proof (rule goal[of st])
      show "highlight_effect rf idx playing st = Inr st" using n by (rule conjunct1)
      show "text_on st = text_on st" by (rule refl)
      show "st = cleanup st" using n by simp
      show "highlightRef st \<noteq> None \<and> marks_on st = 1" if ?made
      proof -
        from that obtain v a b where "attempted idx (cleanup st) = Wrap v a b" by blast
        with n show ?thesis by simp
      qed
    qed
  next
    case (Some cs)
    show ?thesis
    proof (cases "idx < 0 \<or> \<not> playing")
      case True
      show ?thesis
      proof (rule goal[of "cleanup st"])
        show "highlight_effect rf idx playing st = Inr (cleanup st)"
          using assms Some True by (rule effect_idle)
        show "text_on (cleanup st) = text_on st" by (rule c(3))
        show "cleanup st = cleanup st" by (rule refl)
        show "highlightRef (cleanup st) \<noteq> None \<and> marks_on (cleanup st) = 1" if ?made
        proof -
          from that have "0 \<le> idx" "playing" by simp_all
          with True show ?thesis by simp
        qed
      qed
    next
      case False
      then have pos: "0 \<le> idx" and pl: playing by simp_all
      show ?thesis
      proof (rule effect_run[OF assms Some pos pl, where rf = rf])
        fix st'
        assume r: "highlight_effect rf idx playing st = Inr st'" "text_on st' = text_on st"
          and past: "int (length (text_on st)) \<le> idx \<Longrightarrow> st' = cleanup st"
          and all: "\<forall>v a b. rf v a b \<noteq> None \<Longrightarrow> st' = cleanup st"
          and refused: "\<And>v a b. attempted idx (cleanup st) = Wrap v a b \<Longrightarrow> rf v a b \<noteq> None
             \<Longrightarrow> st' = cleanup st"
          and accepted: "\<And>v a b. attempted idx (cleanup st) = Wrap v a b \<Longrightarrow> rf v a b = None
             \<Longrightarrow> highlightRef st' \<noteq> None \<and> marks_on st' = 1"
        show ?thesis
        proof (rule goal[of st'])
          show "highlight_effect rf idx playing st = Inr st'" by (rule r(1))
          show "text_on st' = text_on st" by (rule r(2))
          show "st' = cleanup st" if ?fail
            using that
          proof (elim disjE exE conjE)
            assume "idx < 0"
            with pos show ?thesis by simp
          next
            assume "int (length (text_on st)) \<le> idx"
            then show ?thesis by (rule past)
          next
            assume "\<forall>v a b. rf v a b \<noteq> None"
            then show ?thesis by (rule all)
          next
            fix v a b assume "attempted idx (cleanup st) = Wrap v a b" "rf v a b \<noteq> None"
            then show ?thesis by (rule refused)
          qed
          show "highlightRef st' \<noteq> None \<and> marks_on st' = 1" if ?made
          proof -
            from that obtain v a b where "attempted idx (cleanup st) = Wrap v a b" "rf v a b = None"
              by blast
            then show ?thesis by (rule accepted)
          qed
        qed
      qed
    qed
  qed
qed

theorem highlight_failure_silent_witness:
  "highlight_ok \<lparr>container = Some [Elem ''p'' [Text (js ''al''), Mark [Text (js ''pha'')], Text (js '' beta'')]],
                  highlightRef = Some [0, 1]\<rparr>
   \<and> cleanup \<lparr>container = Some [Elem ''p'' [Text (js ''al''), Mark [Text (js ''pha'')], Text (js '' beta'')]],
               highlightRef = Some [0, 1]\<rparr>
       = \<lparr>container = Some [Elem ''p'' [Text (js ''alpha beta'')]], highlightRef = None\<rparr>
   \<and> attempted 6 \<lparr>container = Some [Elem ''p'' [Text (js ''alpha beta'')]], highlightRef = None\<rparr>
       = Wrap (js ''alpha beta'') 6 10
   \<and> highlight_effect (\<lambda>v a b. if a = 6 then Some InvalidStateError else None) 6 True
        \<lparr>container = Some [Elem ''p'' [Text (js ''al''), Mark [Text (js ''pha'')], Text (js '' beta'')]],
         highlightRef = Some [0, 1]\<rparr>
       = Inr \<lparr>container = Some [Elem ''p'' [Text (js ''alpha beta'')]], highlightRef = None\<rparr>
   \<and> marks_on \<lparr>container = Some [Elem ''p'' [Text (js ''alpha beta'')]], highlightRef = None\<rparr> = 0
   \<and> highlight_effect (\<lambda>v a b. if a = 6 then Some InvalidStateError else None) 10 True
        \<lparr>container = Some [Elem ''p'' [Text (js ''al''), Mark [Text (js ''pha'')], Text (js '' beta'')]],
         highlightRef = Some [0, 1]\<rparr>
       = Inr \<lparr>container = Some [Elem ''p'' [Text (js ''alpha beta'')]], highlightRef = None\<rparr>
   \<and> attempted 0 \<lparr>container = Some [Elem ''p'' [Text (js ''alpha beta'')]], highlightRef = None\<rparr>
       = Wrap (js ''alpha beta'') 0 5
   \<and> highlight_effect (\<lambda>v a b. if a = 6 then Some InvalidStateError else None) 0 True
        \<lparr>container = Some [Elem ''p'' [Text (js ''al''), Mark [Text (js ''pha'')], Text (js '' beta'')]],
         highlightRef = Some [0, 1]\<rparr>
       = Inr \<lparr>container = Some [Elem ''p'' [Text [], Mark [Text (js ''alpha'')], Text (js '' beta'')]],
              highlightRef = Some [0, 1]\<rparr>
   \<and> marks_on \<lparr>container = Some [Elem ''p'' [Text [], Mark [Text (js ''alpha'')], Text (js '' beta'')]],
                highlightRef = Some [0, 1]\<rparr> = 1"
proof -
  let ?st = "\<lparr>container = Some [Elem ''p'' [Text (js ''al''), Mark [Text (js ''pha'')], Text (js '' beta'')]],
              highlightRef = Some [0, 1]\<rparr>"
  let ?clean = "\<lparr>container = Some [Elem ''p'' [Text (js ''alpha beta'')]], highlightRef = None\<rparr>"
  let ?marked = "\<lparr>container = Some [Elem ''p'' [Text [], Mark [Text (js ''alpha'')], Text (js '' beta'')]],
                  highlightRef = Some [0, 1]\<rparr>"
  let ?rf = "\<lambda>(v :: jsstring) (a :: nat) (b :: nat). if a = 6 then Some InvalidStateError else None"
  have ok: "highlight_ok ?st" by code_simp
  have cl: "cleanup ?st = ?clean" by code_simp
  have at6: "attempted 6 ?clean = Wrap (js ''alpha beta'') 6 10" by code_simp
  have at0: "attempted 0 ?clean = Wrap (js ''alpha beta'') 0 5" by code_simp
  have len: "int (length (text_on ?st)) \<le> 10" by code_simp
  have ev0: "highlight_effect ?rf 0 True ?st = Inr ?marked" by code_simp

  have refused: "(6::int) < 0 \<or> int (length (text_on ?st)) \<le> 6 \<or> (\<forall>v a b. ?rf v a b \<noteq> None)
      \<or> (\<exists>v a b. attempted 6 (cleanup ?st) = Wrap v a b \<and> ?rf v a b \<noteq> None)"
  proof (intro disjI2 exI conjI)
    show "attempted 6 (cleanup ?st) = Wrap (js ''alpha beta'') 6 10"
      unfolding cl by (rule at6)
    show "?rf (js ''alpha beta'') 6 10 \<noteq> None" by simp
  qed
  from highlight_failure_silent[OF ok, of ?rf 6 True]
  obtain s6 where s6: "highlight_effect ?rf 6 True ?st = Inr s6 \<and> text_on s6 = text_on ?st
      \<and> ((6::int) < 0 \<or> int (length (text_on ?st)) \<le> 6 \<or> (\<forall>v a b. ?rf v a b \<noteq> None)
            \<or> (\<exists>v a b. attempted 6 (cleanup ?st) = Wrap v a b \<and> ?rf v a b \<noteq> None)
          \<longrightarrow> s6 = cleanup ?st \<and> highlightRef s6 = None \<and> marks_on s6 = 0)
      \<and> (0 \<le> (6::int) \<and> True
            \<and> (\<exists>v a b. attempted 6 (cleanup ?st) = Wrap v a b \<and> ?rf v a b = None)
          \<longrightarrow> highlightRef s6 \<noteq> None \<and> marks_on s6 = 1)" ..
  from s6[THEN conjunct2, THEN conjunct2, THEN conjunct1] refused
  have r6: "s6 = cleanup ?st \<and> highlightRef s6 = None \<and> marks_on s6 = 0"
    by (rule mp)
  from r6 have eq6: "s6 = ?clean" unfolding cl by (rule conjunct1)
  from s6 have "highlight_effect ?rf 6 True ?st = Inr s6" by (rule conjunct1)
  then have e6: "highlight_effect ?rf 6 True ?st = Inr ?clean" unfolding eq6 .
  from r6 have "marks_on s6 = 0" by (elim conjE)
  then have m6: "marks_on ?clean = 0" unfolding eq6 .

  have past: "(10::int) < 0 \<or> int (length (text_on ?st)) \<le> 10 \<or> (\<forall>v a b. ?rf v a b \<noteq> None)
      \<or> (\<exists>v a b. attempted 10 (cleanup ?st) = Wrap v a b \<and> ?rf v a b \<noteq> None)"
    using len by (intro disjI2 disjI1)
  from highlight_failure_silent[OF ok, of ?rf 10 True]
  obtain s10 where s10: "highlight_effect ?rf 10 True ?st = Inr s10 \<and> text_on s10 = text_on ?st
      \<and> ((10::int) < 0 \<or> int (length (text_on ?st)) \<le> 10 \<or> (\<forall>v a b. ?rf v a b \<noteq> None)
            \<or> (\<exists>v a b. attempted 10 (cleanup ?st) = Wrap v a b \<and> ?rf v a b \<noteq> None)
          \<longrightarrow> s10 = cleanup ?st \<and> highlightRef s10 = None \<and> marks_on s10 = 0)
      \<and> (0 \<le> (10::int) \<and> True
            \<and> (\<exists>v a b. attempted 10 (cleanup ?st) = Wrap v a b \<and> ?rf v a b = None)
          \<longrightarrow> highlightRef s10 \<noteq> None \<and> marks_on s10 = 1)" ..
  from s10[THEN conjunct2, THEN conjunct2, THEN conjunct1] past
  have "s10 = cleanup ?st \<and> highlightRef s10 = None \<and> marks_on s10 = 0"
    by (rule mp)
  then have eq10: "s10 = ?clean" unfolding cl by (rule conjunct1)
  from s10 have "highlight_effect ?rf 10 True ?st = Inr s10" by (rule conjunct1)
  then have e10: "highlight_effect ?rf 10 True ?st = Inr ?clean" unfolding eq10 .

  have accepted: "0 \<le> (0::int) \<and> True
      \<and> (\<exists>v a b. attempted 0 (cleanup ?st) = Wrap v a b \<and> ?rf v a b = None)"
  proof (intro conjI exI)
    show "attempted 0 (cleanup ?st) = Wrap (js ''alpha beta'') 0 5"
      unfolding cl by (rule at0)
    show "?rf (js ''alpha beta'') 0 5 = None" by simp
  qed simp_all
  from highlight_failure_silent[OF ok, of ?rf 0 True]
  obtain s0 where s0: "highlight_effect ?rf 0 True ?st = Inr s0 \<and> text_on s0 = text_on ?st
      \<and> ((0::int) < 0 \<or> int (length (text_on ?st)) \<le> 0 \<or> (\<forall>v a b. ?rf v a b \<noteq> None)
            \<or> (\<exists>v a b. attempted 0 (cleanup ?st) = Wrap v a b \<and> ?rf v a b \<noteq> None)
          \<longrightarrow> s0 = cleanup ?st \<and> highlightRef s0 = None \<and> marks_on s0 = 0)
      \<and> (0 \<le> (0::int) \<and> True
            \<and> (\<exists>v a b. attempted 0 (cleanup ?st) = Wrap v a b \<and> ?rf v a b = None)
          \<longrightarrow> highlightRef s0 \<noteq> None \<and> marks_on s0 = 1)" ..
  from s0[THEN conjunct2, THEN conjunct2, THEN conjunct2] accepted
  have "highlightRef s0 \<noteq> None \<and> marks_on s0 = 1"
    by (rule mp)
  then have ms0: "marks_on s0 = 1" by (rule conjunct2)
  from s0 have "highlight_effect ?rf 0 True ?st = Inr s0" by (rule conjunct1)
  with ev0 have eq0: "s0 = ?marked" by (simp only: sum.inject)
  from ms0 have m0: "marks_on ?marked = 1" unfolding eq0 .

  from ok cl at6 e6 m6 e10 at0 ev0 m0 show ?thesis
    by (intro conjI)
qed

end
